theory Spec2Isabelle
  imports Main "HOL-Library.AList"
begin

section \<open>Text: characters and the regular expressions of the cleaners\<close>

text \<open>
  Python strings are modelled as \<^typ>\<open>string\<close>, one \<^typ>\<open>char\<close> per code point, and the
  model is meant for ASCII text (code points below 128). On ASCII text
  \<^verbatim>\<open>unicodedata.normalize('NFKC', text)\<close> returns its argument, \<^verbatim>\<open>\s\<close> and
  \<^verbatim>\<open>str.strip()\<close> know the ten characters of \<open>is_space\<close>, \<^verbatim>\<open>\d\<close> is \<^verbatim>\<open>[0-9]\<close> and
  \<^verbatim>\<open>\w\<close> is \<^verbatim>\<open>[A-Za-z0-9_]\<close>.
\<close>

definition ascii :: "char \<Rightarrow> bool" where
  "ascii c \<longleftrightarrow> \<not> digit7 c"

definition is_space :: "char \<Rightarrow> bool" where
  "is_space c \<longleftrightarrow> c \<in> set [CHR 0x09, CHR 0x0A, CHR 0x0B, CHR 0x0C, CHR 0x0D,
                            CHR 0x1C, CHR 0x1D, CHR 0x1E, CHR 0x1F, CHR 0x20]"

definition is_digit :: "char \<Rightarrow> bool" where
  "is_digit c \<longleftrightarrow> c \<in> set ''0123456789''"

definition is_upper :: "char \<Rightarrow> bool" where
  "is_upper c \<longleftrightarrow> c \<in> set ''ABCDEFGHIJKLMNOPQRSTUVWXYZ''"

definition is_lower :: "char \<Rightarrow> bool" where
  "is_lower c \<longleftrightarrow> c \<in> set ''abcdefghijklmnopqrstuvwxyz''"

definition is_alpha :: "char \<Rightarrow> bool" where
  "is_alpha c \<longleftrightarrow> is_upper c \<or> is_lower c"

definition is_word :: "char \<Rightarrow> bool" where
  "is_word c \<longleftrightarrow> is_alpha c \<or> is_digit c \<or> c = CHR ''_''"

text \<open>The footnote markers of \<^verbatim>\<open>cleanup_patterns\<close> that are ASCII: \<^verbatim>\<open>*\<close> and \<^verbatim>\<open>#\<close>
  (dagger, double dagger and pilcrow are not).\<close>

definition is_marker :: "char \<Rightarrow> bool" where
  "is_marker c \<longleftrightarrow> c = CHR ''*'' \<or> c = CHR ''#''"

text \<open>The characters of the class \<^verbatim>\<open>[,.;:?!]\<close>.\<close>

definition is_punct :: "char \<Rightarrow> bool" where
  "is_punct c \<longleftrightarrow> c \<in> set '',.;:?!''"

text \<open>\<^verbatim>\<open>unicodedata.normalize('NFKC', text)\<close>, on ASCII text.\<close>

definition nfkc :: "string \<Rightarrow> string" where
  "nfkc text = text"

text \<open>\<^verbatim>\<open>re.compile(r'\s+')\<close> replaced by one space: a maximal run of whitespace becomes
  a single space.\<close>

function sub_ws :: "string \<Rightarrow> string" where
  "sub_ws [] = []"
| "sub_ws (c # cs) =
     (if is_space c then CHR '' '' # sub_ws (dropWhile is_space cs) else c # sub_ws cs)"
  by pat_completeness auto
termination
  by (relation "measure length") (auto simp: le_imp_less_Suc length_dropWhile_le)

text \<open>The two quote patterns. In the source as it stands both classes hold straight
  quotes only (the first is \<^verbatim>\<open>["""]\<close>, the second is meant for apostrophes), so on
  ASCII text each replaces a character by itself.\<close>

definition sub_quotes :: "string \<Rightarrow> string" where
  "sub_quotes text = map (\<lambda>c. if c = CHR 0x22 then CHR 0x22 else c) text"

definition sub_apostrophes :: "string \<Rightarrow> string" where
  "sub_apostrophes text = map (\<lambda>c. if c = CHR 0x27 then CHR 0x27 else c) text"

text \<open>The footnote markers are replaced by the empty string.\<close>

definition sub_markers :: "string \<Rightarrow> string" where
  "sub_markers text = filter (\<lambda>c. \<not> is_marker c) text"

text \<open>\<^verbatim>\<open>re.compile(r'\[.*?\]')\<close> replaced by the empty string. After an opening bracket
  the lazy \<^verbatim>\<open>.*?\<close> runs to the first closing bracket; the dot does not match a newline,
  so a newline met first makes the match at this bracket fail.\<close>

fun find_close :: "string \<Rightarrow> string option" where
  "find_close [] = None"
| "find_close (c # cs) =
     (if c = CHR '']'' then Some cs
      else if c = CHR 0x0A then None
      else find_close cs)"

lemma find_close_length: "find_close cs = Some r \<Longrightarrow> length r < Suc (length cs)"
  by (induction cs) (auto split: if_splits)

function sub_brackets :: "string \<Rightarrow> string" where
  "sub_brackets [] = []"
| "sub_brackets (c # cs) =
     (if c = CHR ''[''
      then (case find_close cs of
              Some r \<Rightarrow> sub_brackets r
            | None \<Rightarrow> c # sub_brackets cs)
      else c # sub_brackets cs)"
  by pat_completeness auto
termination
  by (relation "measure length") (auto simp: find_close_length)

text \<open>\<^verbatim>\<open>str.strip()\<close>: whitespace is dropped at both ends.\<close>

definition lstrip :: "string \<Rightarrow> string" where
  "lstrip text = dropWhile is_space text"

fun rstrip :: "string \<Rightarrow> string" where
  "rstrip [] = []"
| "rstrip (c # cs) = (let r = rstrip cs in if r = [] \<and> is_space c then [] else c # r)"

definition strip :: "string \<Rightarrow> string" where
  "strip text = rstrip (lstrip text)"

text \<open>\<^verbatim>\<open>normalize_text\<close>: NFKC, then the five patterns in the order of
  \<^verbatim>\<open>cleanup_patterns\<close>, then \<^verbatim>\<open>strip\<close>.\<close>

definition normalize_text :: "string \<Rightarrow> string" where
  "normalize_text text =
     strip (sub_brackets (sub_markers (sub_apostrophes (sub_quotes (sub_ws (nfkc text))))))"

text \<open>\<^verbatim>\<open>re.sub(r'(\d+)[:\.](\d+)', r'[\1:\2] ', text)\<close>. A match at a position is a
  maximal run of digits, a colon or a dot, and a maximal run of digits; \<open>match_verse\<close>
  returns the two groups and the text after the match.\<close>

definition match_verse :: "string \<Rightarrow> (string \<times> string \<times> string) option" where
  "match_verse s =
     (let g1 = takeWhile is_digit s; r = dropWhile is_digit s in
      if g1 = [] then None
      else (case r of
              [] \<Rightarrow> None
            | sep # r' \<Rightarrow>
                if (sep = CHR '':'' \<or> sep = CHR ''.'') \<and> takeWhile is_digit r' \<noteq> []
                then Some (g1, takeWhile is_digit r', dropWhile is_digit r')
                else None))"

lemma match_verse_length:
  "match_verse s = Some (g1, g2, r) \<Longrightarrow> length r < length s"
proof -
  assume m: "match_verse s = Some (g1, g2, r)"
  have a: "length (dropWhile is_digit s) \<le> length s" by (rule length_dropWhile_le)
  show ?thesis
  proof (cases "dropWhile is_digit s")
    case Nil
    with m show ?thesis by (simp add: match_verse_def Let_def split: if_splits)
  next
    case (Cons sep r')
    with m have "r = dropWhile is_digit r'"
      by (simp add: match_verse_def Let_def split: if_splits)
    moreover have "length (dropWhile is_digit r') \<le> length r'" by (rule length_dropWhile_le)
    ultimately show ?thesis using a Cons by simp
  qed
qed

function sub_verse :: "string \<Rightarrow> string" where
  "sub_verse [] = []"
| "sub_verse (c # cs) =
     (case match_verse (c # cs) of
        Some (g1, g2, r) \<Rightarrow> ''['' @ g1 @ '':'' @ g2 @ ''] '' @ sub_verse r
      | None \<Rightarrow> c # sub_verse cs)"
  by pat_completeness auto
termination
  by (relation "measure length") (auto dest: match_verse_length)

text \<open>\<^verbatim>\<open>re.sub(r'\s+([,.;:?!])', r'\1', text)\<close>: a maximal run of whitespace that is
  followed by one of the six punctuation characters is dropped.\<close>

function sub_punct :: "string \<Rightarrow> string" where
  "sub_punct [] = []"
| "sub_punct (c # cs) =
     (if is_space c
      then (case dropWhile is_space cs of
              [] \<Rightarrow> c # sub_punct cs
            | p # r \<Rightarrow> if is_punct p then p # sub_punct r else c # sub_punct cs)
      else c # sub_punct cs)"
  by pat_completeness auto
termination
proof (relation "measure length", goal_cases)
  case 1
  show ?case by simp
next
  case (2 c cs)
  show ?case by simp
next
  case (3 c cs p r)
  have "length (dropWhile is_space cs) \<le> length cs" by (rule length_dropWhile_le)
  with 3 show ?case by simp
next
  case (4 c cs p r)
  show ?case by simp
next
  case (5 c cs)
  show ?case by simp
qed

text \<open>\<^verbatim>\<open>clean_bible_text\<close>.\<close>

definition clean_bible_text :: "string \<Rightarrow> string" where
  "clean_bible_text text = sub_punct (sub_verse (normalize_text text))"

subsection \<open>The commentary cleaner\<close>

text \<open>Case folding of \<^verbatim>\<open>re.IGNORECASE\<close> on ASCII: a pattern character and a text
  character match when their lower-case forms are equal. An upper-case letter becomes
  lower case by setting bit 5 of its code.\<close>

definition to_lower :: "char \<Rightarrow> char" where
  "to_lower c =
     (if is_upper c
      then Char (digit0 c) (digit1 c) (digit2 c) (digit3 c) (digit4 c) True (digit6 c) (digit7 c)
      else c)"

text \<open>\<^verbatim>\<open>\b\<close> holds between two positions when exactly one of the characters on its
  sides is a word character; beyond either end of the text there is no character.\<close>

definition wordp :: "char option \<Rightarrow> bool" where
  "wordp p = (case p of None \<Rightarrow> False | Some c \<Rightarrow> is_word c)"

definition word_boundary :: "char option \<Rightarrow> char option \<Rightarrow> bool" where
  "word_boundary p n \<longleftrightarrow> wordp p \<noteq> wordp n"

definition head :: "string \<Rightarrow> char option" where
  "head s = (case s of [] \<Rightarrow> None | c # _ \<Rightarrow> Some c)"

text \<open>The character before the current position, after \<open>m\<close> has been consumed.\<close>

definition last_char :: "char option \<Rightarrow> string \<Rightarrow> char option" where
  "last_char prev m = (if m = [] then prev else Some (last m))"

text \<open>A match of \<^verbatim>\<open>\bTERM\b\<close> under \<^verbatim>\<open>re.IGNORECASE\<close> at the start of \<open>s\<close>, where
  \<open>prev\<close> is the character before \<open>s\<close> in the whole text.\<close>

definition match_term :: "string \<Rightarrow> char option \<Rightarrow> string \<Rightarrow> bool" where
  "match_term term prev s \<longleftrightarrow>
     word_boundary prev (head s) \<and>
     length term \<le> length s \<and>
     map to_lower (take (length term) s) = map to_lower term \<and>
     word_boundary (last_char prev (take (length term) s)) (head (drop (length term) s))"

text \<open>\<^verbatim>\<open>re.sub(fr'\b{term}\b', replacement, text, flags=re.IGNORECASE)\<close> for a
  non-empty term: the text is scanned from the left, a match is replaced and the scan
  goes on behind it.\<close>

fun sub_term :: "string \<Rightarrow> string \<Rightarrow> char option \<Rightarrow> string \<Rightarrow> string" where
  "sub_term term repl prev [] = []"
| "sub_term term repl prev (c # cs) =
     (if match_term term prev (c # cs)
      then repl @ sub_term term repl (last_char prev (take (length term) (c # cs)))
                    (drop (length term - 1) cs)
      else c # sub_term term repl (Some c) cs)"

text \<open>The dictionary \<^verbatim>\<open>theological_terms\<close>, in its insertion order.\<close>

definition theological_terms :: "(string \<times> string) list" where
  "theological_terms =
     [(''YHWH'', ''YHWH''), (''JHVH'', ''JHVH''), (''LORD'', ''LORD''),
      (''Son of Man'', ''Son of Man'')]"

text \<open>\<^verbatim>\<open>clean_commentary_text\<close>.\<close>

definition clean_commentary_text :: "string \<Rightarrow> string" where
  "clean_commentary_text text =
     foldl (\<lambda>t (term, replacement). sub_term term replacement None t)
       (normalize_text text) theological_terms"

section \<open>Python values, errors and \<^verbatim>\<open>int()\<close>\<close>

text \<open>An exception that leaves a function is a value \<open>Inl e\<close> of its result.\<close>

datatype py_error = TypeError | KeyError | AttributeError | ValueError

text \<open>\<^verbatim>\<open>int(s)\<close> for a string: whitespace at both ends is ignored, a sign may come
  first, then decimal digits, where single underscores may stand between digits. The
  whitespace of \<^verbatim>\<open>int\<close> is that of C (tab, newline, vertical tab, form feed, carriage
  return, space): unlike \<^verbatim>\<open>str.strip\<close> it does not know the separators
  \<^verbatim>\<open>0x1C\<close> to \<^verbatim>\<open>0x1F\<close>. A string of more than 4300 digits is refused (the default
  limit of the interpreter). Every failure is a \<^verbatim>\<open>ValueError\<close>, here \<open>None\<close>.\<close>

definition c_space :: "char \<Rightarrow> bool" where
  "c_space c \<longleftrightarrow> c \<in> set [CHR 0x09, CHR 0x0A, CHR 0x0B, CHR 0x0C, CHR 0x0D, CHR 0x20]"

definition int_strip :: "string \<Rightarrow> string" where
  "int_strip s = rev (dropWhile c_space (rev (dropWhile c_space s)))"

definition digit_val :: "char \<Rightarrow> int" where
  "digit_val c = of_char c - 48"

definition digits_val :: "string \<Rightarrow> int" where
  "digits_val ds = foldl (\<lambda>a c. 10 * a + digit_val c) 0 ds"

fun digits_us :: "string \<Rightarrow> bool" where
  "digits_us [] = True"
| "digits_us [c] = is_digit c"
| "digits_us (c # d # r) = ((is_digit c \<or> (c = CHR ''_'' \<and> is_digit d)) \<and> digits_us (d # r))"

definition max_str_digits :: nat where
  "max_str_digits = 4300"

definition valid_digits :: "string \<Rightarrow> bool" where
  "valid_digits ds \<longleftrightarrow>
     ds \<noteq> [] \<and> is_digit (hd ds) \<and> digits_us ds \<and> length (filter is_digit ds) \<le> max_str_digits"

definition int_of_str :: "string \<Rightarrow> int option" where
  "int_of_str s =
     (let b = int_strip s in
      case b of
        [] \<Rightarrow> None
      | c # r \<Rightarrow>
          if c = CHR ''-'' then
            (if valid_digits r then Some (- digits_val (filter is_digit r)) else None)
          else if c = CHR ''+'' then
            (if valid_digits r then Some (digits_val (filter is_digit r)) else None)
          else
            (if valid_digits b then Some (digits_val (filter is_digit b)) else None))"

text \<open>\<^verbatim>\<open>str(i)\<close> for an integer, as the f-string of the reference column needs it.\<close>

definition digit_char :: "nat \<Rightarrow> char" where
  "digit_char n = char_of (48 + n)"

function digits_of_nat :: "nat \<Rightarrow> string" where
  "digits_of_nat n =
     (if n < 10 then [digit_char n] else digits_of_nat (n div 10) @ [digit_char (n mod 10)])"
  by pat_completeness auto
termination
  by (relation "measure id") auto

definition str_int :: "int \<Rightarrow> string" where
  "str_int i = (if i < 0 then CHR ''-'' # digits_of_nat (nat (- i)) else digits_of_nat (nat i))"

text \<open>The values that the markup and plain-text parsers put into the fields of a
  commentary record: \<^verbatim>\<open>None\<close>, an integer or a string. A record is a dictionary from
  field names to such values, in insertion order.\<close>

datatype pyval = PNone | PInt int | PStr string

type_synonym entry = "(string \<times> pyval) list"

section \<open>The markup parsers\<close>

text \<open>The tree that \<^verbatim>\<open>BeautifulSoup(content, 'xml')\<close> returns: an element has a tag name,
  attributes and children; a child is an element or a piece of text. The document itself
  is the element on top. The model starts from this tree; how the library builds it from
  the text of the file is not part of the program.\<close>

datatype xml = Elem string "(string \<times> string) list" "xml list" | Text string

fun descendants :: "xml \<Rightarrow> xml list" where
  "descendants (Text s) = []"
| "descendants (Elem tag attrs kids) = concat (map (\<lambda>k. k # descendants k) kids)"

definition is_tag :: "string \<Rightarrow> xml \<Rightarrow> bool" where
  "is_tag name x = (case x of Elem tag attrs kids \<Rightarrow> tag = name | Text s \<Rightarrow> False)"

text \<open>\<^verbatim>\<open>elem.find_all(name)\<close>: the descendants with that tag name, in document order;
  \<^verbatim>\<open>elem.find(name)\<close>: the first of them, or \<^verbatim>\<open>None\<close>.\<close>

definition find_all :: "string \<Rightarrow> xml \<Rightarrow> xml list" where
  "find_all name x = filter (is_tag name) (descendants x)"

definition find_elem :: "string \<Rightarrow> xml \<Rightarrow> xml option" where
  "find_elem name x = (case find_all name x of [] \<Rightarrow> None | y # ys \<Rightarrow> Some y)"

text \<open>\<^verbatim>\<open>elem.get(name)\<close>: the attribute, or \<^verbatim>\<open>None\<close>.\<close>

definition get_attr :: "xml \<Rightarrow> string \<Rightarrow> string option" where
  "get_attr x name = (case x of Elem tag attrs kids \<Rightarrow> map_of attrs name | Text s \<Rightarrow> None)"

text \<open>\<^verbatim>\<open>elem.text\<close>: all the text below the element.\<close>

fun elem_text :: "xml \<Rightarrow> string" where
  "elem_text (Text s) = s"
| "elem_text (Elem tag attrs kids) = concat (map elem_text kids)"

text \<open>\<^verbatim>\<open>int(elem.get('number'))\<close>: \<^verbatim>\<open>int(None)\<close> raises \<^verbatim>\<open>TypeError\<close>, and a string that
  is no integer raises \<^verbatim>\<open>ValueError\<close>.\<close>

definition int_attr :: "string option \<Rightarrow> py_error + int" where
  "int_attr a =
     (case a of
        None \<Rightarrow> Inl TypeError
      | Some s \<Rightarrow> (case int_of_str s of None \<Rightarrow> Inl ValueError | Some n \<Rightarrow> Inr n))"

text \<open>A corpus as the markup parser builds it: \<^verbatim>\<open>book_elem.get('name')\<close> is the key of a
  book, a string or \<^verbatim>\<open>None\<close>.\<close>

type_synonym xml_corpus = "(string option \<times> (int \<times> (int \<times> string) list) list) list"

fun verse_loop :: "xml list \<Rightarrow> (int \<times> string) list \<Rightarrow> py_error + (int \<times> string) list" where
  "verse_loop [] chapter_data = Inr chapter_data"
| "verse_loop (verse_elem # rest) chapter_data =
     (case int_attr (get_attr verse_elem ''number'') of
        Inl err \<Rightarrow> Inl err
      | Inr verse_num \<Rightarrow>
          verse_loop rest
            (AList.update verse_num (clean_bible_text (elem_text verse_elem)) chapter_data))"

fun chapter_loop ::
    "xml list \<Rightarrow> (int \<times> (int \<times> string) list) list \<Rightarrow> py_error + (int \<times> (int \<times> string) list) list" where
  "chapter_loop [] book_data = Inr book_data"
| "chapter_loop (chapter_elem # rest) book_data =
     (case int_attr (get_attr chapter_elem ''number'') of
        Inl err \<Rightarrow> Inl err
      | Inr chapter_num \<Rightarrow>
          (case verse_loop (find_all ''verse'' chapter_elem) [] of
             Inl err \<Rightarrow> Inl err
           | Inr chapter_data \<Rightarrow> chapter_loop rest (AList.update chapter_num chapter_data book_data)))"

fun book_loop :: "xml list \<Rightarrow> xml_corpus \<Rightarrow> py_error + xml_corpus" where
  "book_loop [] bible_data = Inr bible_data"
| "book_loop (book_elem # rest) bible_data =
     (case chapter_loop (find_all ''chapter'' book_elem) [] of
        Inl err \<Rightarrow> Inl err
      | Inr book_data \<Rightarrow>
          book_loop rest (AList.update (get_attr book_elem ''name'') book_data bible_data))"

text \<open>\<^verbatim>\<open>_process_xml_bible\<close> (an Isabelle name cannot start with an underscore); the
  argument \<open>soup\<close> is the parsed content.\<close>

definition process_xml_bible :: "xml \<Rightarrow> string \<Rightarrow> py_error + xml_corpus" where
  "process_xml_bible soup translation = book_loop (find_all ''book'' soup) []"

text \<open>\<^verbatim>\<open>int(x) if x else None\<close> for an attribute \<open>x\<close>: a missing and an empty attribute
  give \<^verbatim>\<open>None\<close>.\<close>

definition opt_int_attr :: "string option \<Rightarrow> py_error + pyval" where
  "opt_int_attr a =
     (case a of
        None \<Rightarrow> Inr PNone
      | Some s \<Rightarrow>
          if s = [] then Inr PNone
          else (case int_of_str s of None \<Rightarrow> Inl ValueError | Some n \<Rightarrow> Inr (PInt n)))"

definition str_attr :: "string option \<Rightarrow> pyval" where
  "str_attr a = (case a of None \<Rightarrow> PNone | Some s \<Rightarrow> PStr s)"

text \<open>The body of \<^verbatim>\<open>if ref_elem:\<close> (an element is always true): all four reference
  fields are written, whatever attributes the element has.\<close>

definition reference_fields :: "xml \<Rightarrow> entry \<Rightarrow> py_error + entry" where
  "reference_fields ref_elem entry =
     (let e1 = AList.update ''book'' (str_attr (get_attr ref_elem ''book'')) entry in
      case opt_int_attr (get_attr ref_elem ''chapter'') of
        Inl err \<Rightarrow> Inl err
      | Inr c \<Rightarrow>
          (let e2 = AList.update ''chapter'' c e1 in
           case opt_int_attr (get_attr ref_elem ''verse_start'') of
             Inl err \<Rightarrow> Inl err
           | Inr verse_start \<Rightarrow>
               (let e3 = AList.update ''verse_start'' verse_start e2 in
                case get_attr ref_elem ''verse_end'' of
                  None \<Rightarrow> Inr (AList.update ''verse_end'' verse_start e3)
                | Some s \<Rightarrow>
                    if s = [] then Inr (AList.update ''verse_end'' verse_start e3)
                    else (case int_of_str s of
                            None \<Rightarrow> Inl ValueError
                          | Some n \<Rightarrow> Inr (AList.update ''verse_end'' (PInt n) e3)))))"

definition author_fields :: "xml \<Rightarrow> entry \<Rightarrow> py_error + entry" where
  "author_fields author_elem entry =
     (let e1 = AList.update ''author'' (PStr (elem_text author_elem)) entry in
      case opt_int_attr (get_attr author_elem ''year'') of
        Inl err \<Rightarrow> Inl err
      | Inr y \<Rightarrow> Inr (AList.update ''year'' y e1))"

text \<open>One round of \<^verbatim>\<open>for entry_elem in soup.find_all('entry')\<close>;
  \<^verbatim>\<open>entry_elem.find('content').text\<close> raises \<^verbatim>\<open>AttributeError\<close> when there is no content
  element.\<close>

definition xml_entry :: "string \<Rightarrow> xml \<Rightarrow> py_error + entry" where
  "xml_entry source entry_elem =
     (case find_elem ''content'' entry_elem of
        None \<Rightarrow> Inl AttributeError
      | Some content_elem \<Rightarrow>
          (let entry = [(''source'', PStr source),
                        (''content'', PStr (clean_commentary_text (elem_text content_elem))),
                        (''tradition'', PStr (case get_attr entry_elem ''tradition'' of
                                                None \<Rightarrow> ''unknown'' | Some t \<Rightarrow> t))] in
           case (case find_elem ''reference'' entry_elem of
                   None \<Rightarrow> Inr entry
                 | Some ref_elem \<Rightarrow> reference_fields ref_elem entry) of
             Inl err \<Rightarrow> Inl err
           | Inr entry1 \<Rightarrow>
               (case find_elem ''author'' entry_elem of
                  None \<Rightarrow> Inr entry1
                | Some author_elem \<Rightarrow> author_fields author_elem entry1)))"

fun entry_loop :: "string \<Rightarrow> xml list \<Rightarrow> entry list \<Rightarrow> py_error + entry list" where
  "entry_loop source [] entries = Inr entries"
| "entry_loop source (entry_elem # rest) entries =
     (case xml_entry source entry_elem of
        Inl err \<Rightarrow> Inl err
      | Inr entry \<Rightarrow> entry_loop source rest (entries @ [entry]))"

definition process_xml_commentary :: "xml \<Rightarrow> string \<Rightarrow> py_error + entry list" where
  "process_xml_commentary soup source = entry_loop source (find_all ''entry'' soup) []"

section \<open>The JSON parsers\<close>

text \<open>The value that \<^verbatim>\<open>json.loads(content)\<close> returns. An object is a dictionary with
  strings as keys, in the order of the text. Numbers are the integers: a number with a
  fraction or an exponent is outside this model. The parsers take the result of
  \<^verbatim>\<open>json.loads\<close>, where \<open>None\<close> stands for the \<^verbatim>\<open>JSONDecodeError\<close> of a text that is not
  JSON.\<close>

datatype json = JNull | JBool bool | JInt int | JStr string | JList "json list"
  | JDict "(string \<times> json) list"




















section \<open>The alignment engine\<close>

text \<open>A scripture corpus \<^verbatim>\<open>{book: {chapter: {verse: text}}}\<close>: dictionaries are
  association lists in insertion order, read with \<^const>\<open>map_of\<close> and written with
  \<^const>\<open>AList.update\<close>.\<close>

type_synonym corpus = "(string \<times> (int \<times> (int \<times> string) list) list) list"

text \<open>One element of \<^verbatim>\<open>all_refs\<close>, a dictionary with the keys \<^verbatim>\<open>book\<close>,
  \<^verbatim>\<open>chapter\<close>, \<^verbatim>\<open>verse\<close> and \<^verbatim>\<open>reference\<close>; the last one is the f-string
  \<^verbatim>\<open>f"{book} {chapter}:{verse}"\<close>.\<close>

record ref =
  ref_book :: string
  ref_chapter :: int
  ref_verse :: int
  ref_reference :: string

definition mk_ref :: "string \<Rightarrow> int \<Rightarrow> int \<Rightarrow> ref" where
  "mk_ref b c v =
     \<lparr>ref_book = b, ref_chapter = c, ref_verse = v,
      ref_reference = b @ '' '' @ str_int c @ '':'' @ str_int v\<rparr>"

text \<open>The four nested loops that collect the references, flattened to the list of the
  references met, in the order of the loops.\<close>

definition corpus_refs :: "corpus \<Rightarrow> ref list" where
  "corpus_refs bible_data =
     concat (map (\<lambda>(b, chapters).
       concat (map (\<lambda>(c, verses). map (\<lambda>(v, text). mk_ref b c v) verses) chapters))
       bible_data)"

text \<open>\<^verbatim>\<open>if ref not in all_refs: all_refs.append(ref)\<close>.\<close>

definition add_ref :: "ref list \<Rightarrow> ref \<Rightarrow> ref list" where
  "add_ref all_refs r = (if r \<in> set all_refs then all_refs else all_refs @ [r])"

definition collect_refs :: "(string \<times> corpus) list \<Rightarrow> ref list" where
  "collect_refs bibles = foldl add_ref [] (concat (map (\<lambda>(translation, bd). corpus_refs bd) bibles))"

text \<open>A row of the data frame: the reference and the columns added so far. The frame
  is the list of its rows; \<^verbatim>\<open>df[name] = df.apply(f, axis=1)\<close> computes \<open>f\<close> on every row
  and then writes the column. On a frame without rows \<^verbatim>\<open>apply\<close> does not compute a column:
  it returns a copy of the empty frame, and the assignment of a frame without columns to
  one column raises \<^verbatim>\<open>ValueError\<close>.\<close>

type_synonym row = "ref \<times> (string \<times> string) list"

definition set_column :: "string \<Rightarrow> string list \<Rightarrow> row list \<Rightarrow> row list" where
  "set_column name vals df = map (\<lambda>((r, cols), v). (r, AList.update name v cols)) (zip df vals)"

text \<open>\<^verbatim>\<open>bible_data.get(book, {}).get(chapter, {}).get(verse, "")\<close>.\<close>

definition get_text :: "corpus \<Rightarrow> ref \<Rightarrow> string" where
  "get_text bible_data r =
     (case map_of bible_data (ref_book r) of
        None \<Rightarrow> []
      | Some chapters \<Rightarrow>
          (case map_of chapters (ref_chapter r) of
             None \<Rightarrow> []
           | Some verses \<Rightarrow>
               (case map_of verses (ref_verse r) of None \<Rightarrow> [] | Some text \<Rightarrow> text)))"

fun add_translations :: "(string \<times> corpus) list \<Rightarrow> row list \<Rightarrow> py_error + row list" where
  "add_translations [] df = Inr df"
| "add_translations ((translation, bible_data) # rest) df =
     (if df = [] then Inl ValueError
      else add_translations rest
             (set_column (''text_'' @ translation) (map (\<lambda>(r, cols). get_text bible_data r) df) df))"

text \<open>The index \<^verbatim>\<open>commentary_map\<close> from keys \<^verbatim>\<open>(book, chapter, verse)\<close> to the list of
  contents. Book and chapter are whatever the record holds.\<close>

type_synonym ckey = "pyval \<times> pyval \<times> int"

type_synonym cmap = "(ckey \<times> pyval list) list"

definition cmap_append :: "ckey \<Rightarrow> pyval \<Rightarrow> cmap \<Rightarrow> cmap" where
  "cmap_append key content m =
     (case map_of m key of
        None \<Rightarrow> AList.update key [content] m
      | Some cs \<Rightarrow> AList.update key (cs @ [content]) m)"

text \<open>\<^verbatim>\<open>range(verse_start, verse_end + 1)\<close>: the addition and the range raise
  \<^verbatim>\<open>TypeError\<close> unless both values are integers.\<close>

definition py_range :: "pyval \<Rightarrow> pyval \<Rightarrow> py_error + int list" where
  "py_range verse_start verse_end =
     (case verse_end of
        PInt e \<Rightarrow> (case verse_start of PInt s \<Rightarrow> Inr [s..e] | _ \<Rightarrow> Inl TypeError)
      | _ \<Rightarrow> Inl TypeError)"

text \<open>The body of \<^verbatim>\<open>for verse in range(...)\<close>; \<^verbatim>\<open>entry['content']\<close> raises
  \<^verbatim>\<open>KeyError\<close> when the record has no content.\<close>

fun range_loop :: "entry \<Rightarrow> pyval \<Rightarrow> pyval \<Rightarrow> int list \<Rightarrow> cmap \<Rightarrow> py_error + cmap" where
  "range_loop e b c [] m = Inr m"
| "range_loop e b c (v # vs) m =
     (case map_of e ''content'' of
        None \<Rightarrow> Inl KeyError
      | Some content \<Rightarrow> range_loop e b c vs (cmap_append (b, c, v) content m))"

text \<open>The loop \<^verbatim>\<open>for entry in entries\<close> with its guard
  \<^verbatim>\<open>'book' in entry and 'chapter' in entry and 'verse_start' in entry\<close>.\<close>

fun entries_loop :: "entry list \<Rightarrow> cmap \<Rightarrow> py_error + cmap" where
  "entries_loop [] m = Inr m"
| "entries_loop (e # es) m =
     (case (map_of e ''book'', map_of e ''chapter'', map_of e ''verse_start'') of
        (Some b, Some c, Some verse_start) \<Rightarrow>
          (let verse_end = (case map_of e ''verse_end'' of None \<Rightarrow> verse_start | Some x \<Rightarrow> x) in
           case py_range verse_start verse_end of
             Inl err \<Rightarrow> Inl err
           | Inr vs \<Rightarrow>
               (case range_loop e b c vs m of
                  Inl err \<Rightarrow> Inl err
                | Inr m' \<Rightarrow> entries_loop es m'))
      | _ \<Rightarrow> entries_loop es m)"

text \<open>\<^verbatim>\<open>"; ".join(contents)\<close>: every element must be a string.\<close>

fun join_sep :: "string \<Rightarrow> string list \<Rightarrow> string" where
  "join_sep sep [] = []"
| "join_sep sep [x] = x"
| "join_sep sep (x # y # ys) = x @ sep @ join_sep sep (y # ys)"

fun strs_of :: "pyval list \<Rightarrow> py_error + string list" where
  "strs_of [] = Inr []"
| "strs_of (PStr s # vs) = (case strs_of vs of Inl err \<Rightarrow> Inl err | Inr ss \<Rightarrow> Inr (s # ss))"
| "strs_of (v # vs) = Inl TypeError"

definition join_contents :: "pyval list \<Rightarrow> py_error + string" where
  "join_contents cs = (case strs_of cs of Inl err \<Rightarrow> Inl err | Inr ss \<Rightarrow> Inr (join_sep ''; '' ss))"

text \<open>The lambda of the commentary column, on one row.\<close>

definition commentary_cell :: "cmap \<Rightarrow> ref \<Rightarrow> py_error + string" where
  "commentary_cell m r =
     join_contents (case map_of m (PStr (ref_book r), PInt (ref_chapter r), ref_verse r) of
                      None \<Rightarrow> [] | Some cs \<Rightarrow> cs)"

fun cells :: "cmap \<Rightarrow> row list \<Rightarrow> py_error + string list" where
  "cells m [] = Inr []"
| "cells m ((r, cols) # df) =
     (case commentary_cell m r of
        Inl err \<Rightarrow> Inl err
      | Inr v \<Rightarrow> (case cells m df of Inl err \<Rightarrow> Inl err | Inr vs \<Rightarrow> Inr (v # vs)))"

fun add_commentaries :: "(string \<times> entry list) list \<Rightarrow> row list \<Rightarrow> py_error + row list" where
  "add_commentaries [] df = Inr df"
| "add_commentaries ((source, entries) # rest) df =
     (case entries_loop entries [] of
        Inl err \<Rightarrow> Inl err
      | Inr m \<Rightarrow>
          if df = [] then Inl ValueError
          else (case cells m df of
                  Inl err \<Rightarrow> Inl err
                | Inr vals \<Rightarrow> add_commentaries rest (set_column (''commentary_'' @ source) vals df)))"

text \<open>\<^verbatim>\<open>create_verse_aligned_dataset\<close>; writing the CSV file is left out.\<close>

definition create_verse_aligned_dataset ::
    "(string \<times> corpus) list \<Rightarrow> (string \<times> entry list) list \<Rightarrow> py_error + row list" where
  "create_verse_aligned_dataset bibles commentaries =
     (case add_translations bibles (map (\<lambda>r. (r, [])) (collect_refs bibles)) of
        Inl err \<Rightarrow> Inl err
      | Inr df \<Rightarrow> add_commentaries commentaries df)"

section \<open>The plain-text scripture parser\<close>

text \<open>The pattern of \<^verbatim>\<open>_process_txt_bible\<close> is
  \<^verbatim>\<open>([1-3]?\s*[A-Za-z]+)\s+(\d+):(\d+)\s+(.*?)(?=(?:[1-3]?\s*[A-Za-z]+\s+\d+:\d+)|$)\<close>,
  compiled with \<^verbatim>\<open>re.DOTALL\<close>. Its head
  \<^verbatim>\<open>([1-3]?\s*[A-Za-z]+)\s+(\d+):(\d+)\<close> is also what the lookahead tries. Every
  repetition of the head is greedy and followed by a character that it cannot match, so a
  match of the head at a position is the one with the longest runs, or there is none.
  \<open>match_ref\<close> gives the three groups and the rest of the text.\<close>

definition opt_book_digit :: "string \<Rightarrow> string \<times> string" where
  "opt_book_digit s =
     (case s of
        [] \<Rightarrow> ([], [])
      | c # r \<Rightarrow> if c \<in> set ''123'' then ([c], r) else ([], s))"

definition match_ref :: "string \<Rightarrow> (string \<times> string \<times> string \<times> string) option" where
  "match_ref s =
     (let (d, s1) = opt_book_digit s;
          ws = takeWhile is_space s1; s2 = dropWhile is_space s1;
          al = takeWhile is_alpha s2; s3 = dropWhile is_alpha s2;
          sp = takeWhile is_space s3; s4 = dropWhile is_space s3;
          g2 = takeWhile is_digit s4; s5 = dropWhile is_digit s4
      in if al = [] \<or> sp = [] \<or> g2 = [] then None
         else (case s5 of
                 [] \<Rightarrow> None
               | c # s6 \<Rightarrow>
                   if c = CHR '':'' then
                     (let g3 = takeWhile is_digit s6; s7 = dropWhile is_digit s6 in
                      if g3 = [] then None else Some (d @ ws @ al, g2, g3, s7))
                   else None))"

text \<open>\<^verbatim>\<open>(.*?)(?=(?:...)|$)\<close>: the body is the shortest text after which the head matches
  or the text ends; \<^verbatim>\<open>$\<close> also holds before a newline that ends the text. The result is
  the body and the text that follows it.\<close>

fun lazy_body :: "string \<Rightarrow> string \<times> string" where
  "lazy_body [] = ([], [])"
| "lazy_body (c # cs) =
     (if match_ref (c # cs) \<noteq> None \<or> c # cs = [CHR 0x0A] then ([], c # cs)
      else (let (b, r) = lazy_body cs in (c # b, r)))"

text \<open>A match of the whole pattern at the start of the text: the four groups and the
  text after the match.\<close>

definition match_bcv :: "string \<Rightarrow> (string \<times> string \<times> string \<times> string \<times> string) option" where
  "match_bcv s =
     (case match_ref s of
        None \<Rightarrow> None
      | Some (g1, g2, g3, r) \<Rightarrow>
          if takeWhile is_space r = [] then None
          else (let (body, rest) = lazy_body (dropWhile is_space r) in Some (g1, g2, g3, body, rest)))"

lemma lazy_body_length: "length (snd (lazy_body s)) \<le> length s"
  by (induction s) (auto simp: split_def Let_def)

lemma match_ref_length: "match_ref s = Some (g1, g2, g3, r) \<Longrightarrow> length r < length s"
proof -
  assume a: "match_ref s = Some (g1, g2, g3, r)"
  have dw: "length (dropWhile P xs) \<le> length xs" for P and xs :: string
    by (rule length_dropWhile_le)
  have ob: "length (snd (opt_book_digit s)) \<le> length s"
    by (simp add: opt_book_digit_def split: list.splits)
  let ?s1 = "snd (opt_book_digit s)"
  let ?s2 = "dropWhile is_space ?s1"
  let ?s3 = "dropWhile is_alpha ?s2"
  let ?s4 = "dropWhile is_space ?s3"
  let ?s5 = "dropWhile is_digit ?s4"
  from a obtain c s6 where s5: "?s5 = c # s6" and r: "r = dropWhile is_digit s6"
    unfolding match_ref_def
    by (auto simp: Let_def split_def split: if_splits list.splits)
  have "length r \<le> length s6" unfolding r by (rule dw)
  also have "\<dots> < length ?s5" unfolding s5 by simp
  also have "\<dots> \<le> length ?s4" by (rule dw)
  also have "\<dots> \<le> length ?s3" by (rule dw)
  also have "\<dots> \<le> length ?s2" by (rule dw)
  also have "\<dots> \<le> length ?s1" by (rule dw)
  also have "\<dots> \<le> length s" by (rule ob)
  finally show ?thesis .
qed

lemma match_bcv_length:
  "match_bcv s = Some (g1, g2, g3, body, rest) \<Longrightarrow> length rest < length s"
proof -
  assume a: "match_bcv s = Some (g1, g2, g3, body, rest)"
  then obtain r where m: "match_ref s = Some (g1, g2, g3, r)"
    and b: "rest = snd (lazy_body (dropWhile is_space r))"
    unfolding match_bcv_def
    by (auto simp: Let_def split_def split: option.splits if_splits)
  have "length rest \<le> length (dropWhile is_space r)" unfolding b by (rule lazy_body_length)
  also have "\<dots> \<le> length r" by (rule length_dropWhile_le)
  also have "\<dots> < length s" using m by (rule match_ref_length)
  finally show ?thesis .
qed

text \<open>\<^verbatim>\<open>pattern.finditer(content)\<close>: the matches from left to right; the search for the
  next match starts where the last one ended, and moves on by one character where there
  is no match.\<close>

function finditer_bcv :: "string \<Rightarrow> (string \<times> string \<times> string \<times> string) list" where
  "finditer_bcv s =
     (case match_bcv s of
        Some (g1, g2, g3, body, rest) \<Rightarrow> (g1, g2, g3, body) # finditer_bcv rest
      | None \<Rightarrow> (case s of [] \<Rightarrow> [] | c # cs \<Rightarrow> finditer_bcv cs))"
  by pat_completeness auto
termination
  by (relation "measure length") (auto dest: match_bcv_length)

text \<open>\<^verbatim>\<open>bible_data[book][chapter][verse] = text\<close>, after the two tests that create the
  dictionaries of a new book and of a new chapter.\<close>

definition set_verse :: "corpus \<Rightarrow> string \<Rightarrow> int \<Rightarrow> int \<Rightarrow> string \<Rightarrow> corpus" where
  "set_verse bible_data b c v t =
     (let chapters = (case map_of bible_data b of None \<Rightarrow> [] | Some cs \<Rightarrow> cs);
          verses = (case map_of chapters c of None \<Rightarrow> [] | Some vs \<Rightarrow> vs)
      in AList.update b (AList.update c (AList.update v t verses) chapters) bible_data)"

text \<open>The loop over the matches.\<close>

fun txt_loop :: "(string \<times> string \<times> string \<times> string) list \<Rightarrow> corpus \<Rightarrow> py_error + corpus" where
  "txt_loop [] bible_data = Inr bible_data"
| "txt_loop ((g1, g2, g3, g4) # ms) bible_data =
     (case int_of_str g2 of
        None \<Rightarrow> Inl ValueError
      | Some c \<Rightarrow>
          (case int_of_str g3 of
             None \<Rightarrow> Inl ValueError
           | Some v \<Rightarrow> txt_loop ms (set_verse bible_data (strip g1) c v (clean_bible_text g4))))"

definition process_txt_bible :: "string \<Rightarrow> string \<Rightarrow> py_error + corpus" where
  "process_txt_bible content translation = txt_loop (finditer_bcv content) []"

section \<open>Predicates used in the proofs\<close>

text \<open>Text in which every whitespace character is a single space between two other
  characters (\<open>spaced\<close>), and which moreover has no space at its end or before a
  punctuation character (\<open>tidy\<close>); \<open>plain\<close> text has no digit, no opening bracket
  and no footnote marker.\<close>

fun spaced :: "string \<Rightarrow> bool" where
  "spaced [] = True"
| "spaced [c] = (is_space c \<longrightarrow> c = CHR '' '')"
| "spaced (c # d # cs) = ((is_space c \<longrightarrow> c = CHR '' '' \<and> \<not> is_space d) \<and> spaced (d # cs))"

fun tidy :: "string \<Rightarrow> bool" where
  "tidy [] = True"
| "tidy [c] = (\<not> is_space c)"
| "tidy (c # d # cs) =
     ((is_space c \<longrightarrow> c = CHR '' '' \<and> \<not> is_space d \<and> \<not> is_punct d) \<and> tidy (d # cs))"

definition plain :: "string \<Rightarrow> bool" where
  "plain s \<longleftrightarrow> (\<forall>c\<in>set s. \<not> is_digit c \<and> c \<noteq> CHR ''['' \<and> \<not> is_marker c)"

text \<open>For the commentary cleaner: \<open>occ t prev s i\<close> says that the pattern of the term
  \<open>t\<close> matches at position \<open>i\<close> of \<open>s\<close>. A term does not overlap itself when no
  match can start inside another one; \<open>term_compat t u\<close> says that replacing matches of \<open>t\<close>
  cannot change the letters of an exact occurrence of \<open>u\<close>; \<open>terms_ok\<close> collects what
  the proofs need of a table of terms.\<close>

definition occ :: "string \<Rightarrow> char option \<Rightarrow> string \<Rightarrow> nat \<Rightarrow> bool" where
  "occ t prev s i \<longleftrightarrow> i \<le> length s \<and> match_term t (last_char prev (take i s)) (drop i s)"

definition no_self_overlap :: "string \<Rightarrow> bool" where
  "no_self_overlap t \<longleftrightarrow>
     (\<forall>i<length t. 0 < i \<longrightarrow>
        is_word (t ! (i - 1)) = is_word (t ! i) \<or> to_lower (t ! i) \<noteq> to_lower (t ! 0))"

definition term_compat :: "string \<Rightarrow> string \<Rightarrow> bool" where
  "term_compat t u \<longleftrightarrow>
     (\<forall>a<length t. \<forall>b<length u. to_lower (t ! a) = to_lower (u ! b) \<longrightarrow>
        t ! a = u ! b \<or> (0 < a \<and> 0 < b \<and> to_lower (t ! (a - 1)) \<noteq> to_lower (u ! (b - 1))))"

fun terms_ok :: "(string \<times> string) list \<Rightarrow> bool" where
  "terms_ok [] = True"
| "terms_ok ((t, r) # rest) =
     (r = t \<and> t \<noteq> [] \<and> is_word (hd t) \<and> is_word (last t) \<and> no_self_overlap t \<and>
      list_all (\<lambda>(u, r'). term_compat u t) rest \<and> terms_ok rest)"

text \<open>\<open>covered t r s out p\<close>: position \<open>p\<close> of the output lies in a replaced match.\<close>

definition covered :: "string \<Rightarrow> string \<Rightarrow> string \<Rightarrow> string \<Rightarrow> nat \<Rightarrow> bool" where
  "covered t r s out p \<longleftrightarrow>
     (\<exists>m. m \<le> p \<and> p < m + length t \<and>
          map to_lower (take (length t) (drop m s)) = map to_lower t \<and>
          out ! p = r ! (p - m))"

text \<open>One step of the loop over \<^verbatim>\<open>theological_terms\<close>.\<close>

definition term_step :: "string \<Rightarrow> string \<times> string \<Rightarrow> string" where
  "term_step t p = sub_term (fst p) (snd p) None t"

section \<open>Notions used to state the properties of the alignment\<close>

text \<open>The key \<^verbatim>\<open>(book, chapter, verse)\<close> of a reference, the keys that occur in a corpus,
  and the reference that the engine builds for a key.\<close>

definition ref_key :: "ref \<Rightarrow> string \<times> int \<times> int" where
  "ref_key r = (ref_book r, ref_chapter r, ref_verse r)"

definition corpus_keys :: "corpus \<Rightarrow> (string \<times> int \<times> int) set" where
  "corpus_keys bd =
     {(b, c, v). \<exists>chapters verses text.
        (b, chapters) \<in> set bd \<and> (c, verses) \<in> set chapters \<and> (v, text) \<in> set verses}"

definition key_ref :: "string \<times> int \<times> int \<Rightarrow> ref" where
  "key_ref k = mk_ref (fst k) (fst (snd k)) (snd (snd k))"

text \<open>The key under which a row looks up the commentary index. A record is \<open>guarded\<close>
  when it passes the test \<^verbatim>\<open>'book' in entry and 'chapter' in entry and 'verse_start' in entry\<close>.
  Its range is defined when \<^verbatim>\<open>verse_start\<close> is an integer and \<^verbatim>\<open>verse_end\<close> is an integer
  or absent (then it is \<^verbatim>\<open>verse_start\<close>). A record covers a row when book and chapter are
  those of the row and the verse of the row lies in the range, bounds included. A record
  is well formed when it is not guarded, or has a range and a string as content.\<close>

definition row_key :: "ref \<Rightarrow> ckey" where
  "row_key r = (PStr (ref_book r), PInt (ref_chapter r), ref_verse r)"

definition guarded :: "entry \<Rightarrow> bool" where
  "guarded e \<longleftrightarrow>
     map_of e ''book'' \<noteq> None \<and> map_of e ''chapter'' \<noteq> None \<and> map_of e ''verse_start'' \<noteq> None"

definition entry_range :: "entry \<Rightarrow> (pyval \<times> pyval \<times> int \<times> int) option" where
  "entry_range e =
     (case (map_of e ''book'', map_of e ''chapter'', map_of e ''verse_start'') of
        (Some b, Some c, Some (PInt s)) \<Rightarrow>
          (case map_of e ''verse_end'' of
             None \<Rightarrow> Some (b, c, s, s)
           | Some (PInt x) \<Rightarrow> Some (b, c, s, x)
           | _ \<Rightarrow> None)
      | _ \<Rightarrow> None)"

definition covers_key :: "entry \<Rightarrow> ckey \<Rightarrow> bool" where
  "covers_key e k =
     (case entry_range e of
        None \<Rightarrow> False
      | Some (b, c, s, x) \<Rightarrow> b = fst k \<and> c = fst (snd k) \<and> s \<le> snd (snd k) \<and> snd (snd k) \<le> x)"

definition covers :: "entry \<Rightarrow> ref \<Rightarrow> bool" where
  "covers e r = covers_key e (row_key r)"

definition content_str :: "entry \<Rightarrow> string" where
  "content_str e = (case map_of e ''content'' of Some (PStr t) \<Rightarrow> t | _ \<Rightarrow> [])"

definition well_formed :: "entry \<Rightarrow> bool" where
  "well_formed e \<longleftrightarrow>
     \<not> guarded e \<or> (entry_range e \<noteq> None \<and> map_of e ''content'' = Some (PStr (content_str e)))"

definition lookup_list :: "cmap \<Rightarrow> ckey \<Rightarrow> pyval list" where
  "lookup_list m k = (case map_of m k of None \<Rightarrow> [] | Some cs \<Rightarrow> cs)"

definition cell_of :: "cmap \<Rightarrow> ref \<Rightarrow> string" where
  "cell_of m r = (case commentary_cell m r of Inl err \<Rightarrow> [] | Inr v \<Rightarrow> v)"

definition joined :: "entry list \<Rightarrow> ref \<Rightarrow> string" where
  "joined es r = join_sep ''; '' (map content_str (filter (\<lambda>e. covers e r) es))"

definition content_val :: "entry \<Rightarrow> pyval" where
  "content_val e = (case map_of e ''content'' of None \<Rightarrow> PNone | Some v \<Rightarrow> v)"

definition str_contents :: "entry list \<Rightarrow> ref \<Rightarrow> bool" where
  "str_contents es r \<longleftrightarrow>
     (\<forall>e\<in>set es. covers e r \<longrightarrow> map_of e ''content'' = Some (PStr (content_str e)))"

section \<open>Notions used to state the properties of the markup parsers\<close>

text \<open>An element is \<open>numbered\<close> when \<^verbatim>\<open>int(elem.get('number'))\<close> returns: the attribute is there
  and is an integer. An optional attribute is numeric when \<^verbatim>\<open>int(x) if x else None\<close> returns:
  it is missing, empty or an integer. A commentary entry is in order when it has a content
  element and the optional numbers of its first reference and author elements are
  numeric.\<close>

definition numbered :: "xml \<Rightarrow> bool" where
  "numbered x = (case int_attr (get_attr x ''number'') of Inl err \<Rightarrow> False | Inr n \<Rightarrow> True)"

definition opt_numeric :: "string option \<Rightarrow> bool" where
  "opt_numeric a = (case opt_int_attr a of Inl err \<Rightarrow> False | Inr v \<Rightarrow> True)"

definition entry_ok :: "xml \<Rightarrow> bool" where
  "entry_ok x \<longleftrightarrow>
     find_elem ''content'' x \<noteq> None
     \<and> (case find_elem ''reference'' x of
          None \<Rightarrow> True
        | Some r \<Rightarrow> opt_numeric (get_attr r ''chapter'') \<and> opt_numeric (get_attr r ''verse_start'')
                    \<and> opt_numeric (get_attr r ''verse_end''))
     \<and> (case find_elem ''author'' x of
          None \<Rightarrow> True
        | Some a \<Rightarrow> opt_numeric (get_attr a ''year''))"

section \<open>Notions used to state the properties of the plain-text parser\<close>

text \<open>The verse that a corpus holds under a key \<^verbatim>\<open>(book, chapter, verse)\<close>. The
  occurrences of references in a text are the matches of the pattern, each with its key
  (the trimmed first group, the numbers of the second and third group) and its body. The
  numbers of a text are short when none has more digits than \<^verbatim>\<open>int\<close> accepts. Storing an
  occurrence is the assignment of the loop body.\<close>

definition lookup_verse :: "corpus \<Rightarrow> string \<times> int \<times> int \<Rightarrow> string option" where
  "lookup_verse bible_data k =
     (case map_of bible_data (fst k) of
        None \<Rightarrow> None
      | Some chapters \<Rightarrow>
          (case map_of chapters (fst (snd k)) of
             None \<Rightarrow> None
           | Some verses \<Rightarrow> map_of verses (snd (snd k))))"

definition occurrences :: "string \<Rightarrow> ((string \<times> int \<times> int) \<times> string) list" where
  "occurrences content =
     map (\<lambda>(g1, g2, g3, g4). ((strip g1, digits_val g2, digits_val g3), g4)) (finditer_bcv content)"

definition short_numbers :: "string \<Rightarrow> bool" where
  "short_numbers content =
     list_all (\<lambda>(g1, g2, g3, g4). length g2 \<le> max_str_digits \<and> length g3 \<le> max_str_digits)
       (finditer_bcv content)"

definition digit_str :: "string \<Rightarrow> bool" where
  "digit_str g \<longleftrightarrow> g \<noteq> [] \<and> list_all is_digit g"

definition store_verse :: "corpus \<Rightarrow> (string \<times> int \<times> int) \<times> string \<Rightarrow> corpus" where
  "store_verse bd oc =
     set_verse bd (fst (fst oc)) (fst (snd (fst oc))) (snd (snd (fst oc))) (clean_bible_text (snd oc))"

section \<open>Notions used to state the properties of the JSON parsers\<close>


section \<open>Properties of the cleaners\<close>

lemma sub_ws_hd: "\<not> is_space c \<Longrightarrow> sub_ws (c # cs) = c # sub_ws cs"
  by simp

lemma spaced_sub_ws: "spaced (sub_ws s)"
proof (induction s rule: sub_ws.induct)
  case 1
  show ?case by simp
next
  case (2 c cs)
  show ?case
  proof (cases "is_space c")
    case True
    show ?thesis
    proof (cases "dropWhile is_space cs")
      case Nil
      have "sub_ws (c # cs) = CHR '' '' # sub_ws (dropWhile is_space cs)" using True by simp
      then show ?thesis unfolding Nil by simp
    next
      case (Cons d ds)
      then have nd: "\<not> is_space d" using hd_dropWhile[of is_space cs] by auto
      from 2(1)[OF True] Cons nd True show ?thesis by simp
    qed
  next
    case False
    with 2(2) show ?thesis by (cases "sub_ws cs") auto
  qed
qed

lemma spaced_Cons: "spaced (c # cs) \<Longrightarrow> spaced cs"
  by (cases cs) auto

lemma sub_ws_spaced: "spaced s \<Longrightarrow> sub_ws s = s"
  by (induction s rule: spaced.induct) auto

lemma spaced_dropWhile: "spaced s \<Longrightarrow> spaced (dropWhile is_space s)"
  by (induction s) (auto dest: spaced_Cons)

lemma rstrip_Nil_iff: "rstrip s = [] \<longleftrightarrow> (\<forall>c\<in>set s. is_space c)"
  by (induction s) (auto simp: Let_def)

lemma spaced_rstrip: "spaced s \<Longrightarrow> spaced (rstrip s)"
proof (induction s rule: spaced.induct)
  case 1
  show ?case by simp
next
  case (2 c)
  then show ?case by simp
next
  case (3 c d cs)
  then have ih: "spaced (rstrip (d # cs))" by simp
  show ?case
  proof (cases "rstrip (d # cs)")
    case Nil
    with 3 show ?thesis by (auto simp: Let_def split: if_splits)
  next
    case (Cons e es)
    then have "e = d" by (auto simp: Let_def split: if_splits)
    with Cons ih 3(2) show ?thesis by (auto simp: Let_def split: if_splits)
  qed
qed

lemma rstrip_last: "rstrip s \<noteq> [] \<Longrightarrow> \<not> is_space (last (rstrip s))"
  by (induction s) (auto simp: Let_def split: if_splits)

lemma rstrip_hd: "\<not> is_space c \<Longrightarrow> rstrip (c # cs) = c # rstrip cs"
  by (simp add: Let_def)

lemma tidy_Cons: "\<not> is_space c \<Longrightarrow> tidy t \<Longrightarrow> tidy (c # t)"
  by (cases t) auto

lemma tidy_tl: "tidy (c # t) \<Longrightarrow> t \<noteq> [] \<Longrightarrow> tidy t"
  by (cases t) auto

lemma tidy_spaced: "tidy s \<Longrightarrow> spaced s"
  by (induction s rule: tidy.induct) auto

lemma tidy_rstrip: "tidy s \<Longrightarrow> rstrip s = s"
  by (induction s rule: tidy.induct) (auto simp: Let_def)

lemma tidy_sub_punct: "tidy s \<Longrightarrow> sub_punct s = s"
proof (induction s rule: tidy.induct)
  case 1
  show ?case by simp
next
  case (2 c)
  then show ?case by simp
next
  case (3 c d cs)
  then have ih: "sub_punct (d # cs) = d # cs" by simp
  show ?case
  proof (cases "is_space c")
    case True
    with 3(2) have "\<not> is_space d" "\<not> is_punct d" by auto
    then show ?thesis using True ih by simp
  next
    case False
    then show ?thesis using ih by simp
  qed
qed

lemma sub_punct_tidy:
  "spaced s \<Longrightarrow> (s \<noteq> [] \<Longrightarrow> \<not> is_space (last s)) \<Longrightarrow> tidy (sub_punct s)"
proof (induction s rule: sub_punct.induct)
  case 1
  show ?case by simp
next
  case (2 c cs)
  show ?case
  proof (cases "is_space c")
    case False
    have "tidy (sub_punct cs)"
      using 2(4)[OF False] 2(5,6) by (cases cs) (auto dest: spaced_Cons)
    with False show ?thesis by (simp add: tidy_Cons)
  next
    case True
    then obtain d r where cs: "cs = d # r" using 2(6) by (cases cs) auto
    with True 2(5) have c: "c = CHR '' ''" and nd: "\<not> is_space d" by auto
    have dw: "dropWhile is_space cs = d # r" using cs nd by simp
    have sr: "spaced r" using 2(5) cs by (auto dest: spaced_Cons)
    have lr: "r \<noteq> [] \<Longrightarrow> \<not> is_space (last r)" using 2(6) cs by auto
    show ?thesis
    proof (cases "is_punct d")
      case pd: True
      have "tidy (sub_punct r)" using 2(2)[OF True dw pd] sr lr by simp
      then show ?thesis using True dw pd nd by (simp add: tidy_Cons)
    next
      case npd: False
      have scs: "spaced cs" using 2(5) by (auto dest: spaced_Cons)
      have "tidy (sub_punct cs)" using 2(3)[OF True dw npd] scs 2(6) cs by simp
      moreover have "sub_punct cs = d # sub_punct r" using cs nd by simp
      ultimately show ?thesis using True dw npd nd c by simp
    qed
  qed
qed

lemma set_sub_ws: "set (sub_ws s) \<subseteq> insert (CHR '' '') (set s)"
  by (induction s rule: sub_ws.induct) (auto dest: set_dropWhileD)

lemma set_rstrip: "set (rstrip s) \<subseteq> set s"
  by (induction s) (auto simp: Let_def)

lemma set_sub_punct: "set (sub_punct s) \<subseteq> set s"
proof (induction s rule: sub_punct.induct)
  case 1
  show ?case by simp
next
  case (2 c cs)
  show ?case
  proof (cases "is_space c")
    case False
    with 2(4) show ?thesis by auto
  next
    case True
    show ?thesis
    proof (cases "dropWhile is_space cs")
      case Nil
      have "sub_punct (c # cs) = c # sub_punct cs" using True unfolding sub_punct.simps Nil by simp
      moreover have "set (sub_punct cs) \<subseteq> set cs" using 2(1)[OF True Nil] .
      ultimately show ?thesis by auto
    next
      case (Cons p r)
      have pr: "set (p # r) \<subseteq> set cs" using set_dropWhileD[of _ is_space cs] Cons by auto
      show ?thesis
      proof (cases "is_punct p")
        case pp: True
        have "sub_punct (c # cs) = p # sub_punct r" using True pp unfolding sub_punct.simps Cons by simp
        moreover have "set (sub_punct r) \<subseteq> set r" using 2(2)[OF True Cons pp] .
        ultimately show ?thesis using pr by auto
      next
        case np: False
        have "sub_punct (c # cs) = c # sub_punct cs" using True np unfolding sub_punct.simps Cons by simp
        moreover have "set (sub_punct cs) \<subseteq> set cs" using 2(3)[OF True Cons np] .
        ultimately show ?thesis by auto
      qed
    qed
  qed
qed

lemma sub_quotes_id: "sub_quotes s = s"
  unfolding sub_quotes_def by (induction s) auto

lemma sub_apostrophes_id: "sub_apostrophes s = s"
  unfolding sub_apostrophes_def by (induction s) auto

lemma sub_markers_id: "\<forall>c\<in>set s. \<not> is_marker c \<Longrightarrow> sub_markers s = s"
  unfolding sub_markers_def by (induction s) auto

lemma sub_brackets_id: "CHR ''['' \<notin> set s \<Longrightarrow> sub_brackets s = s"
  by (induction s) auto

lemma match_verse_no_digit: "\<not> is_digit c \<Longrightarrow> match_verse (c # cs) = None"
  by (simp add: match_verse_def)

lemma sub_verse_id: "\<forall>c\<in>set s. \<not> is_digit c \<Longrightarrow> sub_verse s = s"
  by (induction s) (auto simp: match_verse_no_digit)

lemma plain_space: "plain [CHR '' '']"
  by (simp add: plain_def is_digit_def is_marker_def)

lemma plain_subset: "plain s \<Longrightarrow> set t \<subseteq> insert (CHR '' '') (set s) \<Longrightarrow> plain t"
  using plain_space by (auto simp: plain_def)

lemma normalize_plain: "plain s \<Longrightarrow> normalize_text s = strip (sub_ws s)"
proof -
  assume p: "plain s"
  have q: "plain (sub_ws s)" using p set_sub_ws by (rule plain_subset)
  have m: "sub_markers (sub_ws s) = sub_ws s" using q by (intro sub_markers_id) (simp add: plain_def)
  have "CHR ''['' \<notin> set (sub_ws s)" using q by (auto simp: plain_def)
  then have b: "sub_brackets (sub_ws s) = sub_ws s" by (rule sub_brackets_id)
  show ?thesis
    by (simp add: normalize_text_def nfkc_def sub_quotes_id sub_apostrophes_id m b)
qed

lemma strip_facts:
  "spaced s \<Longrightarrow> spaced (strip s) \<and> (strip s \<noteq> [] \<longrightarrow> \<not> is_space (last (strip s)) \<and> \<not> is_space (hd (strip s)))"
proof -
  assume sp: "spaced s"
  let ?l = "lstrip s"
  have a: "spaced ?l" unfolding lstrip_def using sp by (rule spaced_dropWhile)
  have b: "?l \<noteq> [] \<Longrightarrow> \<not> is_space (hd ?l)" unfolding lstrip_def by (rule hd_dropWhile)
  have c: "strip s \<noteq> [] \<Longrightarrow> hd (strip s) = hd ?l"
    unfolding strip_def using b by (cases ?l) (auto simp: Let_def split: if_splits)
  have d: "strip s \<noteq> [] \<Longrightarrow> ?l \<noteq> []" unfolding strip_def by auto
  show ?thesis using a b c d spaced_rstrip[of ?l] rstrip_last[of ?l]
    by (auto simp: strip_def)
qed

lemma clean_plain_tidy:
  assumes "plain s"
  shows "tidy (clean_bible_text s) \<and> plain (clean_bible_text s)
         \<and> (clean_bible_text s \<noteq> [] \<longrightarrow> \<not> is_space (hd (clean_bible_text s)))"
proof -
  let ?z = "strip (sub_ws s)"
  have n: "normalize_text s = ?z" using assms by (rule normalize_plain)
  have sz: "set ?z \<subseteq> insert (CHR '' '') (set s)"
    using set_sub_ws[of s] set_rstrip[of "lstrip (sub_ws s)"] set_dropWhileD[of _ is_space "sub_ws s"]
    by (auto simp: strip_def lstrip_def)
  have pz: "plain ?z" using assms sz by (rule plain_subset)
  then have v: "sub_verse ?z = ?z" by (simp add: sub_verse_id plain_def)
  have c: "clean_bible_text s = sub_punct ?z" by (simp add: clean_bible_text_def n v)
  have f: "spaced ?z \<and> (?z \<noteq> [] \<longrightarrow> \<not> is_space (last ?z) \<and> \<not> is_space (hd ?z))"
    using spaced_sub_ws by (rule strip_facts)
  have t: "tidy (sub_punct ?z)" using f by (intro sub_punct_tidy) auto
  have p: "plain (sub_punct ?z)" using pz set_sub_punct[of ?z] by (auto simp: plain_def)
  have h: "sub_punct ?z \<noteq> [] \<longrightarrow> \<not> is_space (hd (sub_punct ?z))"
    using f by (cases ?z) auto
  show ?thesis using t p h by (simp add: c)
qed

lemma clean_tidy_id:
  assumes "tidy s" "plain s" "s \<noteq> [] \<longrightarrow> \<not> is_space (hd s)"
  shows "clean_bible_text s = s"
proof -
  have a: "sub_ws s = s" using assms(1) by (simp add: tidy_spaced sub_ws_spaced)
  have l: "lstrip s = s" using assms(3) by (cases s) (auto simp: lstrip_def)
  have b: "strip s = s" using assms(1) by (simp add: strip_def l tidy_rstrip)
  have n: "normalize_text s = s" using assms(2) by (simp add: normalize_plain a b)
  have v: "sub_verse s = s" using assms(2) by (simp add: sub_verse_id plain_def)
  show ?thesis using assms(1) by (simp add: clean_bible_text_def n v tidy_sub_punct)
qed

subsection \<open>Replacement of the protected terms\<close>

lemma terms_ok_theological: "terms_ok theological_terms"
  by code_simp

lemma is_word_to_lower: "is_word (to_lower c) = is_word c"
  by (auto simp: to_lower_def is_word_def is_alpha_def is_upper_def is_lower_def is_digit_def)

lemma ci_is_word: "to_lower c = to_lower d \<Longrightarrow> is_word c = is_word d"
  by (metis is_word_to_lower)

lemma last_char_append: "last_char p (a @ b) = last_char (last_char p a) b"
  by (simp add: last_char_def)

lemma occ_0: "occ t prev s 0 = match_term t prev s"
  by (simp add: occ_def last_char_def)

lemma occ_Suc: "occ t prev (c # cs) (Suc j) = occ t (Some c) cs j"
  by (simp add: occ_def last_char_def)

lemma occ_jump:
  assumes "length m \<le> i"
  shows "occ t prev (m @ rest) i = occ t (last_char prev m) rest (i - length m)"
  using assms by (auto simp: occ_def last_char_append)

lemma match_term_length: "match_term t prev s \<Longrightarrow> length t \<le> length s"
  by (simp add: match_term_def)

lemma drop_pred: "t \<noteq> [] \<Longrightarrow> drop (length t - 1) cs = drop (length t) (c # cs)"
  by (cases t) auto

lemma sub_term_match:
  "t \<noteq> [] \<Longrightarrow> match_term t prev (c # cs) \<Longrightarrow>
   sub_term t r prev (c # cs) =
     r @ sub_term t r (last_char prev (take (length t) (c # cs))) (drop (length t) (c # cs))"
  using drop_pred[of t cs c] by simp

lemma sub_term_no_match:
  "\<not> match_term t prev (c # cs) \<Longrightarrow> sub_term t r prev (c # cs) = c # sub_term t r (Some c) cs"
  by simp

lemma sub_term_ci:
  "t \<noteq> [] \<Longrightarrow> map to_lower r = map to_lower t \<Longrightarrow>
   map to_lower (sub_term t r prev s) = map to_lower s"
proof (induction t r prev s rule: sub_term.induct)
  case (1 t r prev)
  show ?case by simp
next
  case (2 t r prev c cs)
  show ?case
  proof (cases "match_term t prev (c # cs)")
    case True
    let ?s = "c # cs"
    have a: "map to_lower (take (length t) ?s) = map to_lower t"
      using True by (simp add: match_term_def)
    have ih: "map to_lower (sub_term t r (last_char prev (take (length t) ?s)) (drop (length t) ?s))
              = map to_lower (drop (length t) ?s)"
      using 2(1)[OF True 2(3,4)] drop_pred[OF 2(3), of cs c] by simp
    have "map to_lower (sub_term t r prev ?s) =
          map to_lower t @ map to_lower (drop (length t) ?s)"
      unfolding sub_term_match[OF 2(3) True] map_append ih 2(4) ..
    also have "\<dots> = map to_lower (take (length t) ?s @ drop (length t) ?s)"
      unfolding map_append a ..
    finally show ?thesis by simp
  next
    case False
    then show ?thesis using 2(2)[OF False 2(3,4)] by simp
  qed
qed

lemma sub_term_length: 
  assumes "t \<noteq> []" "map to_lower r = map to_lower t"
  shows "length (sub_term t r prev s) = length s"
proof -
  have "length (map to_lower (sub_term t r prev s)) = length (map to_lower s)"
    using sub_term_ci[OF assms] by simp
  then show ?thesis by simp
qed


lemma ci_region_nth:
  assumes "map to_lower (take (length t) (drop i s)) = map to_lower t" "k < length t"
  shows "i + k < length s \<and> to_lower (s ! (i + k)) = to_lower (t ! k)"
proof -
  have "length (map to_lower (take (length t) (drop i s))) = length (map to_lower t)"
    using assms(1) by simp
  then have l: "length t \<le> length s - i" by simp
  then have b: "i + k < length s" using assms(2) by simp
  have "map to_lower (take (length t) (drop i s)) ! k = map to_lower t ! k"
    using assms(1) by simp
  moreover have "map to_lower (take (length t) (drop i s)) ! k = to_lower (s ! (i + k))"
    using assms(2) l b by simp
  moreover have "map to_lower t ! k = to_lower (t ! k)" using assms(2) by simp
  ultimately show ?thesis using b by simp
qed

lemma match_term_ci:
  "match_term t prev s \<Longrightarrow> map to_lower (take (length t) (drop 0 s)) = map to_lower t"
  by (simp add: match_term_def)

lemma occ_ci:
  "occ t prev s i \<Longrightarrow> map to_lower (take (length t) (drop i s)) = map to_lower t"
  by (simp add: occ_def match_term_def)

lemma occ_bound: "t \<noteq> [] \<Longrightarrow> occ t prev s i \<Longrightarrow> i + length t \<le> length s"
  by (auto simp: occ_def match_term_def)

lemma occ_start_boundary:
  assumes "occ t prev s i" "0 < i" "i < length s"
  shows "is_word (s ! (i - 1)) \<noteq> is_word (s ! i)"
proof -
  have wb: "word_boundary (last_char prev (take i s)) (head (drop i s))"
    using assms(1) by (simp add: occ_def match_term_def)
  have ne: "take i s \<noteq> []" using assms(2,3) by auto
  have "last (take i s) = take i s ! (length (take i s) - 1)" using ne by (rule last_conv_nth)
  also have "\<dots> = s ! (i - 1)" using assms(2,3) by (simp add: min_def)
  finally have "last (take i s) = s ! (i - 1)" .
  with ne have a: "last_char prev (take i s) = Some (s ! (i - 1))"
    by (simp add: last_char_def)
  have b: "head (drop i s) = Some (s ! i)"
    using assms(3) by (simp add: head_def Cons_nth_drop_Suc[symmetric])
  show ?thesis using wb unfolding a b by (simp add: word_boundary_def wordp_def)
qed

lemma overlap_False:
  assumes "no_self_overlap t" "match_term t prev s" "occ t prev s i" "0 < i" "i < length t"
  shows False
proof -
  have n: "length t \<le> length s" using assms(2) by (rule match_term_length)
  have a: "to_lower (s ! (i - 1)) = to_lower (t ! (i - 1))"
    using ci_region_nth[OF match_term_ci[OF assms(2)], of "i - 1"] assms(4,5) by simp
  have b: "to_lower (s ! i) = to_lower (t ! i)"
    using ci_region_nth[OF match_term_ci[OF assms(2)], of i] assms(5) by simp
  have c: "to_lower (s ! i) = to_lower (t ! 0)"
    using ci_region_nth[OF occ_ci[OF assms(3)], of 0] assms(4,5) by fastforce
  have d: "is_word (s ! (i - 1)) \<noteq> is_word (s ! i)"
    using assms(3,4,5) n by (intro occ_start_boundary[of t prev]) auto
  have "is_word (t ! (i - 1)) \<noteq> is_word (t ! i)"
    using d ci_is_word[OF a] ci_is_word[OF b] by simp
  moreover have "to_lower (t ! i) = to_lower (t ! 0)" using b c by simp
  ultimately show False using assms(1,4,5) by (auto simp: no_self_overlap_def)
qed

lemma sub_term_occ_exact:
  assumes "t \<noteq> []" "map to_lower r = map to_lower t" "no_self_overlap t" "occ t prev s i"
  shows "take (length t) (drop i (sub_term t r prev s)) = r"
  using assms
proof (induction t r prev s arbitrary: i rule: sub_term.induct)
  case (1 t r prev)
  then show ?case by (auto simp: occ_def match_term_def)
next
  case (2 t r prev c cs)
  have lr: "length r = length t" using 2(4) by (metis length_map)
  show ?case
  proof (cases "match_term t prev (c # cs)")
    case True
    let ?s = "c # cs"
    let ?m = "take (length t) ?s"
    let ?rest = "drop (length t) ?s"
    have eq: "sub_term t r prev ?s = r @ sub_term t r (last_char prev ?m) ?rest"
      using 2(3) True by (rule sub_term_match)
    have lm: "length ?m = length t" using match_term_length[OF True] by simp
    consider (zero) "i = 0" | (mid) "0 < i" "i < length t" | (far) "length t \<le> i" by linarith
    then show ?thesis
    proof cases
      case zero
      then show ?thesis unfolding eq using lr by simp
    next
      case mid
      then show ?thesis using overlap_False[OF 2(5) True 2(6)] by simp
    next
      case far
      have "occ t prev (?m @ ?rest) i" using 2(6) by simp
      then have o: "occ t (last_char prev ?m) ?rest (i - length t)"
        using occ_jump[of ?m i t prev ?rest] far lm by simp
      have "take (length t) (drop (i - length t) (sub_term t r (last_char prev ?m) (drop (length t - 1) cs))) = r"
        using 2(1)[OF True 2(3,4,5)] o drop_pred[OF 2(3), of cs c] by simp
      then show ?thesis unfolding eq using far lr drop_pred[OF 2(3), of cs c] by simp
    qed
  next
    case False
    have eq: "sub_term t r prev (c # cs) = c # sub_term t r (Some c) cs"
      using False by (rule sub_term_no_match)
    show ?thesis
    proof (cases i)
      case 0
      then show ?thesis using 2(6) False by (simp add: occ_0)
    next
      case (Suc j)
      then have "occ t (Some c) cs j" using 2(6) by (simp add: occ_Suc)
      then have "take (length t) (drop j (sub_term t r (Some c) cs)) = r"
        using 2(2)[OF False 2(3,4,5)] by simp
      then show ?thesis unfolding eq Suc by simp
    qed
  qed
qed

lemma coveredI:
  "m \<le> p \<Longrightarrow> p < m + length t \<Longrightarrow>
   map to_lower (take (length t) (drop m s)) = map to_lower t \<Longrightarrow>
   out ! p = r ! (p - m) \<Longrightarrow> covered t r s out p"
  unfolding covered_def by (rule exI[of _ m]) simp

lemma covered_shift:
  assumes "covered t r rest X q" "length pre = n" "length r' = n"
  shows "covered t r (pre @ rest) (r' @ X) (n + q)"
proof -
  from assms(1) obtain m where m: "m \<le> q" "q < m + length t"
      "map to_lower (take (length t) (drop m rest)) = map to_lower t"
      "X ! q = r ! (q - m)"
    unfolding covered_def by (elim exE conjE)
  have a: "n + m \<le> n + q" using m(1) by simp
  have b: "n + q < (n + m) + length t" using m(2) by simp
  have c: "drop (n + m) (pre @ rest) = drop m rest" using assms(2) by simp
  have d: "(r' @ X) ! (n + q) = X ! q" using assms(3) by (simp add: nth_append)
  have e: "n + q - (n + m) = q - m" by simp
  show ?thesis
    by (rule coveredI[OF a b]) (simp_all only: c d e m(3) m(4))
qed

lemma sub_term_nth:
  assumes "t \<noteq> []" "length r = length t" "p < length s"
  shows "sub_term t r prev s ! p = s ! p \<or> covered t r s (sub_term t r prev s) p"
  using assms
proof (induction t r prev s arbitrary: p rule: sub_term.induct)
  case (1 t r prev)
  from 1(3) show ?case by simp
next
  case (2 t r prev c cs)
  show ?case
  proof (cases "match_term t prev (c # cs)")
    case True
    let ?s = "c # cs"
    let ?m = "take (length t) ?s"
    let ?rest = "drop (length t) ?s"
    let ?X = "sub_term t r (last_char prev ?m) ?rest"
    have eq: "sub_term t r prev ?s = r @ ?X"
      using 2(3) True by (rule sub_term_match)
    have lt: "length t \<le> length ?s" using True by (rule match_term_length)
    have lm: "length ?m = length t" using lt by simp
    have split: "?m @ ?rest = ?s" by (rule append_take_drop_id)
    show ?thesis
    proof (cases "p < length t")
      case pl: True
      have a: "(r @ ?X) ! p = r ! (p - 0)" using pl 2(4) by (simp add: nth_append)
      have b: "map to_lower (take (length t) (drop 0 ?s)) = map to_lower t"
        using True by (rule match_term_ci)
      have "covered t r ?s (r @ ?X) p"
        by (rule coveredI[of 0, OF _ _ b a]) (use pl in simp_all)
      then show ?thesis unfolding eq by (rule disjI2)
    next
      case pg: False
      let ?q = "p - length t"
      have pq: "p = length t + ?q" using pg by simp
      have q: "?q < length ?rest" using pg 2(5) by simp
      have dp: "drop (length t - 1) cs = ?rest" using 2(3) by (rule drop_pred)
      have ih: "?X ! ?q = ?rest ! ?q \<or> covered t r ?rest ?X ?q"
        using 2(1)[OF True 2(3,4), of ?q] q unfolding dp by blast
      have xp: "(r @ ?X) ! p = ?X ! ?q" using pg 2(4) by (simp add: nth_append)
      have sp: "?rest ! ?q = ?s ! p" using pg lt by simp
      from ih show ?thesis
      proof
        assume "?X ! ?q = ?rest ! ?q"
        then have "(r @ ?X) ! p = ?s ! p" using xp sp by simp
        then show ?thesis unfolding eq by (rule disjI1)
      next
        assume "covered t r ?rest ?X ?q"
        then have "covered t r (?m @ ?rest) (r @ ?X) (length t + ?q)"
          using lm 2(4) by (rule covered_shift)
        then have "covered t r ?s (r @ ?X) p" unfolding split using pq by simp
        then show ?thesis unfolding eq by (rule disjI2)
      qed
    qed
  next
    case False
    let ?X = "sub_term t r (Some c) cs"
    have eq: "sub_term t r prev (c # cs) = [c] @ ?X"
      using False by (simp add: sub_term_no_match)
    show ?thesis
    proof (cases p)
      case 0
      then show ?thesis unfolding eq by simp
    next
      case (Suc q)
      have "q < length cs" using 2(5) Suc by simp
      then have ih: "?X ! q = cs ! q \<or> covered t r cs ?X q"
        using 2(2)[OF False 2(3,4), of q] by blast
      from ih show ?thesis
      proof
        assume "?X ! q = cs ! q"
        then show ?thesis unfolding eq Suc by simp
      next
        assume "covered t r cs ?X q"
        then have "covered t r ([c] @ cs) ([c] @ ?X) (1 + q)"
          by (rule covered_shift) simp_all
        then have "covered t r (c # cs) ([c] @ ?X) p" using Suc by simp
        then show ?thesis unfolding eq by (rule disjI2)
      qed
    qed
  qed
qed


lemma exact_nth:
  assumes "take (length u) (drop i s) = u" "j < length u"
  shows "i + j < length s \<and> s ! (i + j) = u ! j"
proof -
  have "length (take (length u) (drop i s)) = length u" using assms(1) by simp
  then have l: "length u \<le> length s - i" by simp
  then have b: "i + j < length s" using assms(2) by simp
  have "take (length u) (drop i s) ! j = u ! j" using assms(1) by simp
  moreover have "take (length u) (drop i s) ! j = s ! (i + j)" using assms(2) l b by simp
  ultimately show ?thesis using b by simp
qed

lemma sub_term_preserves:
  assumes "t \<noteq> []" "term_compat t u" "take (length u) (drop i s) = u"
  shows "take (length u) (drop i (sub_term t t prev s)) = u"
proof (cases "u = []")
  case True
  then show ?thesis by simp
next
  case False
  let ?out = "sub_term t t prev s"
  have lo: "length ?out = length s" using assms(1) by (simp add: sub_term_length)
  have "length (take (length u) (drop i s)) = length u" using assms(3) by simp
  then have "length u \<le> length s - i" by simp
  moreover have "0 < length u" using False by simp
  ultimately have bound: "i + length u \<le> length s" by linarith
  have un: "s ! (i + j) = u ! j" if "j < length u" for j
    using exact_nth[OF assms(3) that] by simp
  have pt: "?out ! (i + j) = u ! j" if j: "j < length u" for j
  proof -
    have p: "i + j < length s" using j bound by simp
    have "?out ! (i + j) = s ! (i + j) \<or> covered t t s ?out (i + j)"
      using assms(1) refl p by (rule sub_term_nth)
    then show ?thesis
    proof
      assume "?out ! (i + j) = s ! (i + j)"
      then show ?thesis using un[OF j] by simp
    next
      assume "covered t t s ?out (i + j)"
      then obtain m where m: "m \<le> i + j" "i + j < m + length t"
              "map to_lower (take (length t) (drop m s)) = map to_lower t"
              "?out ! (i + j) = t ! (i + j - m)"
        unfolding covered_def by (elim exE conjE)
      define a where "a = i + j - m"
      have a: "a < length t" using m(1,2) by (simp add: a_def)
      have ma: "m + a = i + j" using m(1) by (simp add: a_def)
      have "to_lower (s ! (m + a)) = to_lower (t ! a)"
        using ci_region_nth[OF m(3) a] by simp
      then have e: "to_lower (t ! a) = to_lower (u ! j)" using un[OF j] ma by simp
      have "t ! a = u ! j \<or> (0 < a \<and> 0 < j \<and> to_lower (t ! (a - 1)) \<noteq> to_lower (u ! (j - 1)))"
        using assms(2) a j e unfolding term_compat_def by simp
      then show ?thesis
      proof
        assume "t ! a = u ! j"
        then show ?thesis using m(4) by (simp add: a_def)
      next
        assume c: "0 < a \<and> 0 < j \<and> to_lower (t ! (a - 1)) \<noteq> to_lower (u ! (j - 1))"
        have a1: "a - 1 < length t" using a by simp
        have j1: "j - 1 < length u" using j by simp
        have x: "to_lower (s ! (m + (a - 1))) = to_lower (t ! (a - 1))"
          using ci_region_nth[OF m(3) a1] by simp
        have y: "m + (a - 1) = i + (j - 1)" using c ma by linarith
        have z: "s ! (i + (j - 1)) = u ! (j - 1)" using un[OF j1] .
        have "to_lower (t ! (a - 1)) = to_lower (u ! (j - 1))" using x y z by simp
        then show ?thesis using c by simp
      qed
    qed
  qed
  show ?thesis
  proof (rule nth_equalityI)
    show "length (take (length u) (drop i ?out)) = length u" using lo bound by simp
  next
    fix j assume "j < length (take (length u) (drop i ?out))"
    then have j: "j < length u" by simp
    have "take (length u) (drop i ?out) ! j = ?out ! (i + j)" using j lo bound by simp
    then show "take (length u) (drop i ?out) ! j = u ! j" using pt[OF j] by simp
  qed
qed

lemma wordp_head_ci:
  "map to_lower x = map to_lower x' \<Longrightarrow> wordp (head x) = wordp (head x')"
  by (cases x; cases x') (auto simp: head_def wordp_def dest: ci_is_word)

lemma wordp_last_char_ci:
  assumes "map to_lower m = map to_lower m'" "wordp p = wordp p'"
  shows "wordp (last_char p m) = wordp (last_char p' m')"
proof (cases "m = []")
  case True
  then have "m' = []" using assms(1) by simp
  with True assms(2) show ?thesis by (simp add: last_char_def)
next
  case False
  then have f: "m' \<noteq> []" using assms(1) by auto
  have "to_lower (last m) = last (map to_lower m)" using False by (simp add: last_map)
  also have "\<dots> = last (map to_lower m')" using assms(1) by simp
  also have "\<dots> = to_lower (last m')" using f by (simp add: last_map)
  finally have "is_word (last m) = is_word (last m')" by (rule ci_is_word)
  then show ?thesis using False f by (simp add: last_char_def wordp_def)
qed

lemma match_term_cong:
  assumes "map to_lower x = map to_lower x'" "wordp p = wordp p'"
  shows "match_term t p x = match_term t p' x'"
proof -
  let ?n = "length t"
  have l: "length x = length x'" using assms(1) by (rule map_eq_imp_length_eq)
  have tk: "map to_lower (take ?n x) = map to_lower (take ?n x')"
    using assms(1) by (simp add: take_map[symmetric])
  have dr: "map to_lower (drop ?n x) = map to_lower (drop ?n x')"
    using assms(1) by (simp add: drop_map[symmetric])
  have a: "wordp (head x) = wordp (head x')" using assms(1) by (rule wordp_head_ci)
  have b: "wordp (last_char p (take ?n x)) = wordp (last_char p' (take ?n x'))"
    using tk assms(2) by (rule wordp_last_char_ci)
  have c: "wordp (head (drop ?n x)) = wordp (head (drop ?n x'))" using dr by (rule wordp_head_ci)
  show ?thesis unfolding match_term_def word_boundary_def a b c l tk assms(2) ..
qed

lemma occ_cong:
  assumes "map to_lower s = map to_lower s'"
  shows "occ t prev s i = occ t prev s' i"
proof -
  have l: "length s = length s'" using assms by (rule map_eq_imp_length_eq)
  have tk: "map to_lower (take i s) = map to_lower (take i s')"
    using assms by (simp add: take_map[symmetric])
  have dr: "map to_lower (drop i s) = map to_lower (drop i s')"
    using assms by (simp add: drop_map[symmetric])
  have "wordp (last_char prev (take i s)) = wordp (last_char prev (take i s'))"
    using tk refl by (rule wordp_last_char_ci)
  with dr have "match_term t (last_char prev (take i s)) (drop i s)
      = match_term t (last_char prev (take i s')) (drop i s')" by (rule match_term_cong)
  then show ?thesis unfolding occ_def l by simp
qed

lemma clean_commentary_text_fold:
  "clean_commentary_text x = foldl term_step (normalize_text x) theological_terms"
proof -
  have "(\<lambda>t (term, replacement). sub_term term replacement None t) = term_step"
    by (simp add: fun_eq_iff term_step_def case_prod_beta)
  then show ?thesis by (simp add: clean_commentary_text_def)
qed

lemma foldl_term_step_Cons:
  "foldl term_step y ((t, r) # rest) = foldl term_step (sub_term t r None y) rest"
  by (simp add: term_step_def)

lemma fold_ci:
  "terms_ok ts \<Longrightarrow> map to_lower (foldl term_step y ts) = map to_lower y"
proof (induction ts arbitrary: y)
  case Nil
  show ?case by simp
next
  case (Cons p rest)
  obtain t r where p: "p = (t, r)" by (cases p)
  from Cons(2) have ok: "r = t" "t \<noteq> []" "terms_ok rest" unfolding p by simp_all
  have "map to_lower (foldl term_step (sub_term t t None y) rest) = map to_lower (sub_term t t None y)"
    using ok(3) by (rule Cons(1))
  also have "\<dots> = map to_lower y" using ok(2) refl by (rule sub_term_ci)
  finally show ?case unfolding p foldl_term_step_Cons ok(1) .
qed

lemma fold_preserve:
  "terms_ok ts \<Longrightarrow> list_all (\<lambda>(u, r'). term_compat u t) ts \<Longrightarrow>
   take (length t) (drop i y) = t \<Longrightarrow>
   take (length t) (drop i (foldl term_step y ts)) = t"
proof (induction ts arbitrary: y)
  case Nil
  then show ?case by simp
next
  case (Cons p rest)
  obtain u r where p: "p = (u, r)" by (cases p)
  from Cons(2) have ok: "r = u" "u \<noteq> []" "terms_ok rest" unfolding p by simp_all
  from Cons(3) have c: "term_compat u t" "list_all (\<lambda>(u, r'). term_compat u t) rest"
    unfolding p by simp_all
  have "take (length t) (drop i (sub_term u u None y)) = t"
    using ok(2) c(1) Cons(4) by (rule sub_term_preserves)
  then have "take (length t) (drop i (foldl term_step (sub_term u u None y) rest)) = t"
    using Cons(1)[OF ok(3) c(2)] by simp
  then show ?case unfolding p foldl_term_step_Cons ok(1) .
qed

lemma fold_exact:
  "terms_ok ts \<Longrightarrow> (t, r) \<in> set ts \<Longrightarrow> occ t None y i \<Longrightarrow>
   take (length t) (drop i (foldl term_step y ts)) = t"
proof (induction ts arbitrary: y)
  case Nil
  then show ?case by simp
next
  case (Cons p rest)
  obtain u r' where p: "p = (u, r')" by (cases p)
  from Cons(2) have ok: "r' = u" "u \<noteq> []" "no_self_overlap u"
      "list_all (\<lambda>(v, r''). term_compat v u) rest" "terms_ok rest"
    unfolding p by simp_all
  let ?z = "sub_term u u None y"
  have f: "foldl term_step y (p # rest) = foldl term_step ?z rest"
    unfolding p foldl_term_step_Cons ok(1) ..
  show ?case
  proof (cases "u = t")
    case True
    have "take (length t) (drop i (sub_term t t None y)) = t"
      using ok(2,3) Cons(4) unfolding True by (intro sub_term_occ_exact) simp_all
    then have "take (length t) (drop i (foldl term_step (sub_term t t None y) rest)) = t"
      using ok(4,5) unfolding True by (intro fold_preserve)
    then show ?thesis unfolding f True .
  next
    case False
    then have m: "(t, r) \<in> set rest" using Cons(3) unfolding p by auto
    have "map to_lower ?z = map to_lower y" using ok(2) refl by (rule sub_term_ci)
    then have "occ t None ?z i = occ t None y i" by (rule occ_cong)
    then have "occ t None ?z i" using Cons(4) by simp
    then show ?thesis unfolding f using ok(5) m by (intro Cons(1))
  qed
qed

lemma terms_ok_mem:
  "terms_ok ts \<Longrightarrow> (t, r) \<in> set ts \<Longrightarrow>
   r = t \<and> t \<noteq> [] \<and> is_word (hd t) \<and> is_word (last t)"
  by (induction ts) auto

lemma occ_decomp:
  assumes "t \<noteq> []" "is_word (hd t)" "is_word (last t)" "map to_lower w = map to_lower t"
    and "pre = [] \<or> \<not> is_word (last pre)" and "post = [] \<or> \<not> is_word (hd post)"
  shows "occ t None (pre @ w @ post) (length pre)"
proof -
  have lw: "length w = length t" using assms(4) by (rule map_eq_imp_length_eq)
  then have wn: "w \<noteq> []" using assms(1) by auto
  have "to_lower (hd w) = hd (map to_lower w)" using wn by (simp add: hd_map)
  also have "\<dots> = to_lower (hd t)" using assms(1,4) by (simp add: hd_map)
  finally have h: "is_word (hd w)" using assms(2) ci_is_word by blast
  have "to_lower (last w) = last (map to_lower w)" using wn by (simp add: last_map)
  also have "\<dots> = to_lower (last t)" using assms(1,4) by (simp add: last_map)
  finally have l: "is_word (last w)" using assms(3) ci_is_word by blast
  have a: "\<not> wordp (last_char None pre)" using assms(5) by (auto simp: last_char_def wordp_def)
  have b: "wordp (head (w @ post))" using wn h by (cases w) (auto simp: head_def wordp_def)
  have c: "wordp (last_char (last_char None pre) w)" using wn l by (simp add: last_char_def wordp_def)
  have d: "\<not> wordp (head post)" using assms(6) by (cases post) (auto simp: head_def wordp_def)
  have "match_term t (last_char None pre) (w @ post)"
    unfolding match_term_def word_boundary_def using a b c d lw assms(4) by simp
  then show ?thesis by (simp add: occ_def)
qed

lemma canonical_at:
  assumes "(t, r) \<in> set theological_terms"
    and "map to_lower s = map to_lower (normalize_text x)"
    and "s = pre @ w @ post"
    and "map to_lower w = map to_lower t"
    and "pre = [] \<or> \<not> is_word (last pre)" and "post = [] \<or> \<not> is_word (hd post)"
  shows "take (length t) (drop (length pre) (clean_commentary_text x)) = t"
proof -
  note ok = terms_ok_theological
  have m: "r = t \<and> t \<noteq> [] \<and> is_word (hd t) \<and> is_word (last t)"
    using ok assms(1) by (rule terms_ok_mem)
  have "occ t None s (length pre)"
    unfolding assms(3) using m assms(4,5,6) by (intro occ_decomp) simp_all
  then have "occ t None (normalize_text x) (length pre)"
    using occ_cong[OF assms(2)] by simp
  then show ?thesis
    unfolding clean_commentary_text_fold using ok assms(1) by (intro fold_exact)
qed

section \<open>Facts about the alignment engine\<close>

lemma ref_key_key_ref: "ref_key (key_ref k) = k"
  by (simp add: ref_key_def key_ref_def mk_ref_def)

lemma mem_corpus_refs:
  "r \<in> set (corpus_refs bd) \<longleftrightarrow>
     (\<exists>b chapters c verses v text.
        (b, chapters) \<in> set bd \<and> (c, verses) \<in> set chapters \<and> (v, text) \<in> set verses \<and>
        r = mk_ref b c v)"
proof
  assume "r \<in> set (corpus_refs bd)"
  then obtain p where p: "p \<in> set bd"
      and r1: "r \<in> set (concat (map (\<lambda>(c, verses). map (\<lambda>(v, text). mk_ref (fst p) c v) verses) (snd p)))"
    unfolding corpus_refs_def by (auto simp: split_def)
  from r1 obtain q where q: "q \<in> set (snd p)"
      and r2: "r \<in> set (map (\<lambda>(v, text). mk_ref (fst p) (fst q) v) (snd q))"
    by (auto simp: split_def)
  from r2 obtain w where w: "w \<in> set (snd q)" and r3: "r = mk_ref (fst p) (fst q) (fst w)"
    by (auto simp: split_def)
  have "(fst p, snd p) \<in> set bd" "(fst q, snd q) \<in> set (snd p)" "(fst w, snd w) \<in> set (snd q)"
    using p q w by simp_all
  with r3 show "\<exists>b chapters c verses v text.
        (b, chapters) \<in> set bd \<and> (c, verses) \<in> set chapters \<and> (v, text) \<in> set verses \<and>
        r = mk_ref b c v" by blast
next
  assume "\<exists>b chapters c verses v text.
        (b, chapters) \<in> set bd \<and> (c, verses) \<in> set chapters \<and> (v, text) \<in> set verses \<and>
        r = mk_ref b c v"
  then obtain b chapters c verses v tx where
    h: "(b, chapters) \<in> set bd" "(c, verses) \<in> set chapters" "(v, tx) \<in> set verses"
       "r = mk_ref b c v" by blast
  have "r \<in> set (map (\<lambda>(v, text). mk_ref b c v) verses)" using h(3,4) by force
  then have "r \<in> set (concat (map (\<lambda>(c, verses). map (\<lambda>(v, text). mk_ref b c v) verses) chapters))"
    using h(2) by force
  then show "r \<in> set (corpus_refs bd)" unfolding corpus_refs_def using h(1) by force
qed

lemma corpus_keys_iff:
  "(b, c, v) \<in> corpus_keys bd \<longleftrightarrow>
     (\<exists>chapters verses tx. (b, chapters) \<in> set bd \<and> (c, verses) \<in> set chapters \<and> (v, tx) \<in> set verses)"
  unfolding corpus_keys_def by simp

lemma set_corpus_refs: "set (corpus_refs bd) = key_ref ` corpus_keys bd"
proof (intro set_eqI iffI)
  fix r assume "r \<in> set (corpus_refs bd)"
  then obtain b chapters c verses v tx where
    h: "(b, chapters) \<in> set bd" "(c, verses) \<in> set chapters" "(v, tx) \<in> set verses"
       "r = mk_ref b c v" unfolding mem_corpus_refs by blast
  have "(b, c, v) \<in> corpus_keys bd" unfolding corpus_keys_iff using h(1-3) by blast
  moreover have "r = key_ref (b, c, v)" using h(4) by (simp add: key_ref_def)
  ultimately show "r \<in> key_ref ` corpus_keys bd" by (rule rev_image_eqI)
next
  fix r assume "r \<in> key_ref ` corpus_keys bd"
  then obtain k where k: "k \<in> corpus_keys bd" and r: "r = key_ref k" by blast
  obtain b c v where kk: "k = (b, c, v)" by (cases k) auto
  from k obtain chapters verses tx where
    "(b, chapters) \<in> set bd" "(c, verses) \<in> set chapters" "(v, tx) \<in> set verses"
    unfolding kk corpus_keys_iff by blast
  then show "r \<in> set (corpus_refs bd)"
    unfolding mem_corpus_refs r kk key_ref_def by force
qed

lemma foldl_add_ref:
  "distinct acc \<Longrightarrow> distinct (foldl add_ref acc xs) \<and> set (foldl add_ref acc xs) = set acc \<union> set xs"
  by (induction xs arbitrary: acc) (auto simp: add_ref_def)

lemma set_collect_refs:
  "set (collect_refs bibles) = key_ref ` (\<Union>(t, bd)\<in>set bibles. corpus_keys bd)"
  unfolding collect_refs_def using foldl_add_ref[of "[]"]
  by (auto simp: set_corpus_refs)

lemma distinct_collect_refs: "distinct (collect_refs bibles)"
  unfolding collect_refs_def using foldl_add_ref[of "[]"] by simp

lemma distinct_keys_collect_refs: "distinct (map ref_key (collect_refs bibles))"
proof -
  have "inj_on ref_key (set (collect_refs bibles))"
    unfolding set_collect_refs by (rule inj_onI) (auto simp: ref_key_key_ref)
  then show ?thesis using distinct_collect_refs by (simp add: distinct_map)
qed

lemma set_column_map:
  "set_column name (map f df) df = map (\<lambda>p. (fst p, AList.update name (f p) (snd p))) df"
  unfolding set_column_def by (induction df) auto

lemma fst_set_column_map: "map fst (set_column name (map f df) df) = map fst df"
  unfolding set_column_map by (simp add: comp_def)

lemma get_text_missing:
  assumes "ref_key r \<notin> corpus_keys bd"
  shows "get_text bd r = []"
proof (rule ccontr)
  assume "get_text bd r \<noteq> []"
  then obtain chapters verses tx where
    "map_of bd (ref_book r) = Some chapters" "map_of chapters (ref_chapter r) = Some verses"
    "map_of verses (ref_verse r) = Some tx"
    unfolding get_text_def by (auto split: option.splits)
  then have "ref_key r \<in> corpus_keys bd"
    unfolding corpus_keys_def ref_key_def by (auto dest!: map_of_SomeD)
  then show False using assms by simp
qed

lemma lookup_cmap_append:
  "lookup_list (cmap_append key ct m) k = (if k = key then lookup_list m k @ [ct] else lookup_list m k)"
  unfolding lookup_list_def cmap_append_def
  by (auto simp: update_conv' split: option.splits)

lemma range_loop_lookup:
  assumes "map_of e ''content'' = Some ct"
  shows "\<exists>m'. range_loop e b c vs m = Inr m' \<and>
           (\<forall>k. lookup_list m' k = lookup_list m k @ map (\<lambda>v. ct) (filter (\<lambda>v. (b, c, v) = k) vs))"
proof (induction vs arbitrary: m)
  case Nil
  then show ?case by simp
next
  case (Cons v vs)
  from Cons[of "cmap_append (b, c, v) ct m"] obtain m' where
    r: "range_loop e b c vs (cmap_append (b, c, v) ct m) = Inr m'"
    and l: "\<forall>k. lookup_list m' k = lookup_list (cmap_append (b, c, v) ct m) k
                 @ map (\<lambda>v. ct) (filter (\<lambda>v. (b, c, v) = k) vs)" by blast
  have "range_loop e b c (v # vs) m = Inr m'" using assms r by simp
  moreover have "\<forall>k. lookup_list m' k = lookup_list m k @ map (\<lambda>v. ct) (filter (\<lambda>v. (b, c, v) = k) (v # vs))"
    using l by (auto simp: lookup_cmap_append)
  ultimately show ?case by blast
qed

lemma filter_eq_distinct:
  "distinct xs \<Longrightarrow> filter (\<lambda>v. v = a) xs = (if a \<in> set xs then [a] else [])"
  by (induction xs) auto

lemma filter_key_upto:
  "filter (\<lambda>v. (b, c, v) = k) [s..x] =
     (if b = fst k \<and> c = fst (snd k) \<and> s \<le> snd (snd k) \<and> snd (snd k) \<le> x then [snd (snd k)] else [])"
proof (cases k)
  case (fields kb kc kv)
  show ?thesis
  proof (cases "b = kb \<and> c = kc")
    case True
    then have "filter (\<lambda>v. (b, c, v) = k) [s..x] = filter (\<lambda>v. v = kv) [s..x]"
      unfolding fields by simp
    also have "\<dots> = (if kv \<in> set [s..x] then [kv] else [])"
      by (rule filter_eq_distinct) simp
    finally show ?thesis using True unfolding fields by simp
  next
    case False
    then have "filter (\<lambda>v. (b, c, v) = k) [s..x] = []"
      unfolding fields by (auto simp: filter_empty_conv)
    then show ?thesis using False unfolding fields by auto
  qed
qed

lemma entry_step:
  assumes "well_formed e"
  shows "\<exists>m'. (\<forall>es. entries_loop (e # es) m = entries_loop es m') \<and>
           (\<forall>k. lookup_list m' k = lookup_list m k @ (if covers_key e k then [PStr (content_str e)] else []))"
proof (cases "guarded e")
  case False
  then have "\<forall>es. entries_loop (e # es) m = entries_loop es m"
    unfolding guarded_def by (auto split: option.splits)
  moreover have "entry_range e = None"
    using False unfolding guarded_def entry_range_def by (auto split: option.splits)
  then have "\<forall>k. \<not> covers_key e k" unfolding covers_key_def by simp
  ultimately show ?thesis by auto
next
  case True
  with assms have rng: "entry_range e \<noteq> None"
    and ct: "map_of e ''content'' = Some (PStr (content_str e))"
    unfolding well_formed_def by auto
  from rng obtain b c s x where er: "entry_range e = Some (b, c, s, x)" by auto
  from er have bk: "map_of e ''book'' = Some b" and ch: "map_of e ''chapter'' = Some c"
    and vs: "map_of e ''verse_start'' = Some (PInt s)"
    and ve: "(case map_of e ''verse_end'' of None \<Rightarrow> PInt s | Some y \<Rightarrow> y) = PInt x"
    unfolding entry_range_def by (auto split: option.splits pyval.splits)
  from range_loop_lookup[OF ct, of b c "[s..x]" m] obtain m' where
    r: "range_loop e b c [s..x] m = Inr m'"
    and l: "\<forall>k. lookup_list m' k = lookup_list m k
              @ map (\<lambda>v. PStr (content_str e)) (filter (\<lambda>v. (b, c, v) = k) [s..x])" by blast
  have "\<forall>es. entries_loop (e # es) m = entries_loop es m'"
    using bk ch vs ve r by (simp add: py_range_def Let_def)
  moreover have "\<forall>k. lookup_list m' k = lookup_list m k @ (if covers_key e k then [PStr (content_str e)] else [])"
    using l unfolding filter_key_upto covers_key_def er by auto
  ultimately show ?thesis by blast
qed

lemma entries_loop_lookup:
  assumes "\<forall>e\<in>set es. well_formed e"
  shows "\<exists>m'. entries_loop es m = Inr m' \<and>
           (\<forall>k. lookup_list m' k = lookup_list m k
                  @ map (\<lambda>e. PStr (content_str e)) (filter (\<lambda>e. covers_key e k) es))"
  using assms
proof (induction es arbitrary: m)
  case Nil
  then show ?case by simp
next
  case (Cons e es)
  from Cons(2) have "well_formed e" by simp
  from entry_step[OF this, of m] obtain m1 where
    s: "\<forall>es. entries_loop (e # es) m = entries_loop es m1"
    and l1: "\<forall>k. lookup_list m1 k = lookup_list m k @ (if covers_key e k then [PStr (content_str e)] else [])"
    by blast
  from Cons(2) have "\<forall>e\<in>set es. well_formed e" by simp
  from Cons(1)[OF this, of m1] obtain m' where
    r: "entries_loop es m1 = Inr m'"
    and l: "\<forall>k. lookup_list m' k = lookup_list m1 k
                  @ map (\<lambda>e. PStr (content_str e)) (filter (\<lambda>e. covers_key e k) es)" by blast
  have "entries_loop (e # es) m = Inr m'" using s r by simp
  moreover have "\<forall>k. lookup_list m' k = lookup_list m k
                  @ map (\<lambda>e. PStr (content_str e)) (filter (\<lambda>e. covers_key e k) (e # es))"
    using l l1 by simp
  ultimately show ?case by blast
qed

lemma strs_of_PStr: "strs_of (map PStr ss) = Inr ss"
  by (induction ss) auto

lemma commentary_cell_joined:
  assumes "\<forall>e\<in>set es. well_formed e"
  shows "\<exists>m. entries_loop es [] = Inr m \<and> (\<forall>r. commentary_cell m r = Inr (joined es r))"
proof -
  from entries_loop_lookup[OF assms, of "[]"] obtain m where
    r: "entries_loop es [] = Inr m"
    and l: "\<forall>k. lookup_list m k = lookup_list [] k
                  @ map (\<lambda>e. PStr (content_str e)) (filter (\<lambda>e. covers_key e k) es)" by blast
  have "commentary_cell m r = Inr (joined es r)" for r
  proof -
    have "lookup_list [] (row_key r) = []" by (simp add: lookup_list_def)
    with l[rule_format, of "row_key r"]
    have "lookup_list m (row_key r) = map PStr (map content_str (filter (\<lambda>e. covers e r) es))"
      by (simp add: covers_def comp_def)
    then have "commentary_cell m r = join_contents (map PStr (map content_str (filter (\<lambda>e. covers e r) es)))"
      unfolding commentary_cell_def lookup_list_def row_key_def by simp
    then show ?thesis unfolding join_contents_def strs_of_PStr joined_def by simp
  qed
  with r show ?thesis by blast
qed

lemma cells_map:
  assumes "cells m df = Inr vals"
  shows "vals = map (\<lambda>p. cell_of m (fst p)) df"
  using assms
proof (induction df arbitrary: vals)
  case Nil
  then show ?case by simp
next
  case (Cons p df)
  obtain r cols where p: "p = (r, cols)" by (cases p)
  from Cons(2) obtain v vs where v: "commentary_cell m r = Inr v" and vs: "cells m df = Inr vs"
    and e: "vals = v # vs"
    unfolding p by (auto split: sum.splits)
  from Cons(1)[OF vs] show ?case unfolding e p by (simp add: cell_of_def v)
qed

lemma cells_total:
  assumes "\<forall>r. commentary_cell m r = Inr (g r)"
  shows "cells m df = Inr (map (\<lambda>p. g (fst p)) df)"
proof (induction df)
  case Nil
  then show ?case by simp
next
  case (Cons p df)
  obtain r cols where p: "p = (r, cols)" by (cases p)
  show ?case unfolding p using Cons assms by simp
qed

lemma set_column_keeps:
  assumes "\<forall>p\<in>set df. map_of (snd p) name = Some (g (fst p))" and "name \<noteq> n"
  shows "\<forall>p\<in>set (set_column n (map f df) df). map_of (snd p) name = Some (g (fst p))"
  unfolding set_column_map using assms by (auto simp: update_conv')

lemma set_column_sets:
  "\<forall>p\<in>set (set_column n (map (\<lambda>p. g (fst p)) df) df). map_of (snd p) n = Some (g (fst p))"
  unfolding set_column_map by (auto simp: update_conv')

lemma text_name_not_commentary:
  "''text_'' @ t \<notin> (\<lambda>s. ''commentary_'' @ s) ` fst ` set cs"
  by auto

lemma set_column_map_empty: "set_column name (map f df) df = [] \<longleftrightarrow> df = []"
  unfolding set_column_map by simp

lemma add_translations_empty: "bs \<noteq> [] \<Longrightarrow> add_translations bs [] = Inl ValueError"
  by (cases bs) auto

lemma add_translations_total:
  "df \<noteq> [] \<Longrightarrow> \<exists>df'. add_translations bs df = Inr df' \<and> df' \<noteq> []"
proof (induction bs df rule: add_translations.induct)
  case (1 df)
  then show ?case by simp
next
  case (2 translation bible_data rest df)
  have "set_column (''text_'' @ translation) (map (\<lambda>(r, cols). get_text bible_data r) df) df \<noteq> []"
    using 2(2) by (simp add: set_column_map_empty)
  from 2(1)[OF 2(2) this] show ?case using 2(2) by simp
qed

lemma fst_add_translations:
  "add_translations bs df = Inr df' \<Longrightarrow> map fst df' = map fst df"
proof (induction bs df arbitrary: df' rule: add_translations.induct)
  case (1 df)
  then show ?case by simp
next
  case (2 translation bible_data rest df)
  from 2(2) have ne: "df \<noteq> []" by (auto split: if_splits)
  with 2(2) have r: "add_translations rest
      (set_column (''text_'' @ translation) (map (\<lambda>(r, cols). get_text bible_data r) df) df) = Inr df'"
    by simp
  from 2(1)[OF ne r] show ?case by (simp add: fst_set_column_map)
qed

lemma add_translations_keeps:
  assumes "add_translations bs df = Inr df'"
    and "\<forall>p\<in>set df. map_of (snd p) name = Some (g (fst p))"
    and "name \<notin> (\<lambda>t. ''text_'' @ t) ` fst ` set bs"
  shows "\<forall>p\<in>set df'. map_of (snd p) name = Some (g (fst p))"
  using assms
proof (induction bs df arbitrary: df' rule: add_translations.induct)
  case (1 df)
  then show ?case by simp
next
  case (2 translation bible_data rest df)
  from 2(2) have ne: "df \<noteq> []" by (auto split: if_splits)
  with 2(2) have r: "add_translations rest
      (set_column (''text_'' @ translation) (map (\<lambda>(r, cols). get_text bible_data r) df) df) = Inr df'"
    by simp
  have n1: "name \<noteq> ''text_'' @ translation" using 2(4) by auto
  have k: "\<forall>p\<in>set (set_column (''text_'' @ translation) (map (\<lambda>(r, cols). get_text bible_data r) df) df).
            map_of (snd p) name = Some (g (fst p))"
    using 2(3) n1 by (rule set_column_keeps)
  have n: "name \<notin> (\<lambda>t. ''text_'' @ t) ` fst ` set rest" using 2(4) by auto
  from 2(1)[OF ne r k n] show ?case .
qed

lemma add_translations_column:
  assumes "add_translations bs df = Inr df'"
    and "distinct (map fst bs)" and "(t, bd) \<in> set bs"
  shows "\<forall>p\<in>set df'. map_of (snd p) (''text_'' @ t) = Some (get_text bd (fst p))"
  using assms
proof (induction bs df arbitrary: df' rule: add_translations.induct)
  case (1 df)
  then show ?case by simp
next
  case (2 translation bible_data rest df)
  from 2(2) have ne: "df \<noteq> []" by (auto split: if_splits)
  with 2(2) have r: "add_translations rest
      (set_column (''text_'' @ translation) (map (\<lambda>(r, cols). get_text bible_data r) df) df) = Inr df'"
    by simp
  show ?case
  proof (cases "(t, bd) = (translation, bible_data)")
    case True
    then have tt: "t = translation" and bb: "bd = bible_data" by simp_all
    have "translation \<notin> fst ` set rest" using 2(3) by auto
    then have n: "''text_'' @ translation \<notin> (\<lambda>t. ''text_'' @ t) ` fst ` set rest" by auto
    have c: "\<forall>p\<in>set (set_column (''text_'' @ translation) (map (\<lambda>(r, cols). get_text bible_data r) df) df).
            map_of (snd p) (''text_'' @ translation) = Some (get_text bible_data (fst p))"
      unfolding set_column_map by (auto simp: update_conv')
    show ?thesis unfolding tt bb using r c n by (rule add_translations_keeps)
  next
    case False
    then have m: "(t, bd) \<in> set rest" using 2(4) by auto
    have d: "distinct (map fst rest)" using 2(3) by simp
    from 2(1)[OF ne r d m] show ?thesis .
  qed
qed

lemma range_loop_inr:
  assumes "range_loop e b c vs m = Inr m'"
  shows "(\<forall>k. lookup_list m' k = lookup_list m k @ map (\<lambda>v. content_val e) (filter (\<lambda>v. (b, c, v) = k) vs))
       \<and> (vs \<noteq> [] \<longrightarrow> map_of e ''content'' \<noteq> None)"
  using assms
proof (induction vs arbitrary: m)
  case Nil
  then show ?case by simp
next
  case (Cons v vs)
  from Cons(2) obtain ct where ct: "map_of e ''content'' = Some ct"
    and r: "range_loop e b c vs (cmap_append (b, c, v) ct m) = Inr m'"
    by (auto split: option.splits)
  have cv: "content_val e = ct" using ct by (simp add: content_val_def)
  from Cons(1)[OF r]
  have l: "\<forall>k. lookup_list m' k = lookup_list (cmap_append (b, c, v) ct m) k
                 @ map (\<lambda>v. content_val e) (filter (\<lambda>v. (b, c, v) = k) vs)" by blast
  have "\<forall>k. lookup_list m' k = lookup_list m k @ map (\<lambda>v. content_val e) (filter (\<lambda>v. (b, c, v) = k) (v # vs))"
    using l cv by (auto simp: lookup_cmap_append)
  then show ?case using ct by simp
qed

lemma entry_step_inr:
  assumes "entries_loop (e # es) m = Inr mf"
  shows "\<exists>m'. entries_loop es m' = Inr mf \<and>
           (\<forall>k. lookup_list m' k = lookup_list m k @ (if covers_key e k then [content_val e] else [])) \<and>
           (\<forall>k. covers_key e k \<longrightarrow> map_of e ''content'' \<noteq> None)"
proof (cases "guarded e")
  case False
  then have "entries_loop (e # es) m = entries_loop es m"
    unfolding guarded_def by (auto split: option.splits)
  moreover have "entry_range e = None"
    using False unfolding guarded_def entry_range_def by (auto split: option.splits)
  then have "\<forall>k. \<not> covers_key e k" unfolding covers_key_def by simp
  ultimately show ?thesis using assms by auto
next
  case True
  then obtain b c vs0 where bk: "map_of e ''book'' = Some b" and ch: "map_of e ''chapter'' = Some c"
    and v0: "map_of e ''verse_start'' = Some vs0"
    unfolding guarded_def by auto
  let ?ve = "case map_of e ''verse_end'' of None \<Rightarrow> vs0 | Some x \<Rightarrow> x"
  from assms bk ch v0 obtain vs m' where pr: "py_range vs0 ?ve = Inr vs"
    and rl: "range_loop e b c vs m = Inr m'" and el: "entries_loop es m' = Inr mf"
    by (auto simp: Let_def split: sum.splits)
  from pr obtain s x where s: "vs0 = PInt s" and x: "?ve = PInt x" and vs: "vs = [s..x]"
    unfolding py_range_def by (auto split: pyval.splits)
  have er: "entry_range e = Some (b, c, s, x)"
    using bk ch v0 s x unfolding entry_range_def by (auto split: option.splits pyval.splits)
  from range_loop_inr[OF rl]
  have l: "\<forall>k. lookup_list m' k = lookup_list m k
              @ map (\<lambda>v. content_val e) (filter (\<lambda>v. (b, c, v) = k) [s..x])"
    and ne: "[s..x] \<noteq> [] \<longrightarrow> map_of e ''content'' \<noteq> None"
    unfolding vs by blast+
  have "\<forall>k. lookup_list m' k = lookup_list m k @ (if covers_key e k then [content_val e] else [])"
    using l unfolding filter_key_upto covers_key_def er by auto
  moreover have "\<forall>k. covers_key e k \<longrightarrow> map_of e ''content'' \<noteq> None"
  proof (intro allI impI)
    fix k assume "covers_key e k"
    then have "s \<le> snd (snd k) \<and> snd (snd k) \<le> x" unfolding covers_key_def er by simp
    then have "[s..x] \<noteq> []" by auto
    with ne show "map_of e ''content'' \<noteq> None" by simp
  qed
  ultimately show ?thesis using el by blast
qed

lemma entries_loop_inr:
  assumes "entries_loop es m = Inr mf"
  shows "(\<forall>k. lookup_list mf k = lookup_list m k @ map content_val (filter (\<lambda>e. covers_key e k) es))
       \<and> (\<forall>k. \<forall>e\<in>set es. covers_key e k \<longrightarrow> map_of e ''content'' \<noteq> None)"
  using assms
proof (induction es arbitrary: m)
  case Nil
  then show ?case by simp
next
  case (Cons e es)
  from entry_step_inr[OF Cons(2)] obtain m' where
    r: "entries_loop es m' = Inr mf"
    and l1: "\<forall>k. lookup_list m' k = lookup_list m k @ (if covers_key e k then [content_val e] else [])"
    and c1: "\<forall>k. covers_key e k \<longrightarrow> map_of e ''content'' \<noteq> None"
    by blast
  from Cons(1)[OF r]
  have l: "\<forall>k. lookup_list mf k = lookup_list m' k @ map content_val (filter (\<lambda>e. covers_key e k) es)"
    and c: "\<forall>k. \<forall>e\<in>set es. covers_key e k \<longrightarrow> map_of e ''content'' \<noteq> None"
    by blast+
  have "\<forall>k. lookup_list mf k = lookup_list m k @ map content_val (filter (\<lambda>e. covers_key e k) (e # es))"
    using l l1 by simp
  moreover have "\<forall>k. \<forall>e\<in>set (e # es). covers_key e k \<longrightarrow> map_of e ''content'' \<noteq> None"
    using c c1 by simp
  ultimately show ?case by blast
qed

lemma strs_of_inr: "strs_of vs = Inr ss \<Longrightarrow> vs = map PStr ss"
proof (induction vs arbitrary: ss)
  case Nil
  then show ?case by simp
next
  case (Cons v vs)
  show ?case
  proof (cases v)
    case (PStr s)
    with Cons(2) obtain ss' where "strs_of vs = Inr ss'" and "ss = s # ss'"
      by (auto split: sum.splits)
    with Cons(1)[of ss'] PStr show ?thesis by simp
  qed (use Cons(2) in simp_all)
qed

lemma source_cell:
  assumes "entries_loop es [] = Inr m" and "commentary_cell m r = Inr v"
  shows "v = joined es r \<and> str_contents es r"
proof -
  let ?F = "filter (\<lambda>e. covers e r) es"
  from entries_loop_inr[OF assms(1)]
  have l: "\<forall>k. lookup_list m k = lookup_list [] k @ map content_val (filter (\<lambda>e. covers_key e k) es)"
    and c: "\<forall>k. \<forall>e\<in>set es. covers_key e k \<longrightarrow> map_of e ''content'' \<noteq> None"
    by blast+
  have "lookup_list [] (row_key r) = []" by (simp add: lookup_list_def)
  with l[rule_format, of "row_key r"]
  have ll: "lookup_list m (row_key r) = map content_val ?F" by (simp add: covers_def)
  have cc: "commentary_cell m r = join_contents (map content_val ?F)"
    unfolding commentary_cell_def ll[symmetric] lookup_list_def row_key_def by simp
  from assms(2) obtain ss where ss: "strs_of (map content_val ?F) = Inr ss"
    and v: "v = join_sep ''; '' ss"
    unfolding cc join_contents_def by (auto split: sum.splits)
  have e: "map content_val ?F = map PStr ss" using ss by (rule strs_of_inr)
  have st: "map_of e ''content'' = Some (PStr (content_str e)) \<and> content_val e = PStr (content_str e)"
    if "e \<in> set ?F" for e
  proof -
    from that have "content_val e \<in> set (map content_val ?F)" by simp
    then obtain s where s: "content_val e = PStr s" unfolding e by auto
    from that have "e \<in> set es" "covers_key e (row_key r)" by (simp_all add: covers_def)
    with c have "map_of e ''content'' \<noteq> None" by blast
    with s have "map_of e ''content'' = Some (PStr s)" unfolding content_val_def by auto
    then show ?thesis by (simp add: content_str_def content_val_def)
  qed
  have "map content_val ?F = map PStr (map content_str ?F)"
    unfolding map_map by (rule map_cong[OF refl]) (simp add: st)
  then have "map PStr ss = map PStr (map content_str ?F)" unfolding e .
  moreover have "inj PStr" by (rule injI) simp
  ultimately have "ss = map content_str ?F" by (simp only: inj_map_eq_map)
  then have "v = joined es r" unfolding v joined_def by simp
  moreover have "str_contents es r" unfolding str_contents_def using st by simp
  ultimately show ?thesis ..
qed

lemma cells_each:
  assumes "cells m df = Inr vals" and "r \<in> fst ` set df"
  shows "commentary_cell m r = Inr (cell_of m r)"
  using assms
proof (induction df arbitrary: vals)
  case Nil
  then show ?case by simp
next
  case (Cons p df)
  obtain r' cols where p: "p = (r', cols)" by (cases p)
  from Cons(2) obtain v vs where v: "commentary_cell m r' = Inr v" and vs: "cells m df = Inr vs"
    unfolding p by (auto split: sum.splits)
  show ?case
  proof (cases "r = r'")
    case True
    then show ?thesis using v by (simp add: cell_of_def)
  next
    case False
    with Cons(3) have "r \<in> fst ` set df" unfolding p by auto
    with Cons(1)[OF vs] show ?thesis .
  qed
qed

lemma add_commentaries_fst:
  "add_commentaries cs df = Inr df' \<Longrightarrow> map fst df' = map fst df"
proof (induction cs df arbitrary: df' rule: add_commentaries.induct)
  case (1 df)
  then show ?case by simp
next
  case (2 source entries rest df)
  from 2(2) obtain m vals where m: "entries_loop entries [] = Inr m" and ne: "df \<noteq> []"
    and c: "cells m df = Inr vals"
    and r: "add_commentaries rest (set_column (''commentary_'' @ source) vals df) = Inr df'"
    by (auto split: sum.splits if_splits)
  have v: "vals = map (\<lambda>p. cell_of m (fst p)) df" using c by (rule cells_map)
  from 2(1)[OF m ne c r] show ?case unfolding v by (simp add: fst_set_column_map)
qed

lemma add_commentaries_keeps:
  assumes "add_commentaries cs df = Inr df'"
    and "\<forall>p\<in>set df. map_of (snd p) name = Some (g (fst p))"
    and "name \<notin> (\<lambda>s. ''commentary_'' @ s) ` fst ` set cs"
  shows "\<forall>p\<in>set df'. map_of (snd p) name = Some (g (fst p))"
  using assms
proof (induction cs df arbitrary: df' rule: add_commentaries.induct)
  case (1 df)
  then show ?case by simp
next
  case (2 source entries rest df)
  from 2(2) obtain m vals where m: "entries_loop entries [] = Inr m" and ne: "df \<noteq> []"
    and c: "cells m df = Inr vals"
    and r: "add_commentaries rest (set_column (''commentary_'' @ source) vals df) = Inr df'"
    by (auto split: sum.splits if_splits)
  have v: "vals = map (\<lambda>p. cell_of m (fst p)) df" using c by (rule cells_map)
  have n1: "name \<noteq> ''commentary_'' @ source" using 2(4) by auto
  have k: "\<forall>p\<in>set (set_column (''commentary_'' @ source) vals df). map_of (snd p) name = Some (g (fst p))"
    unfolding v using 2(3) n1 by (rule set_column_keeps)
  have n: "name \<notin> (\<lambda>s. ''commentary_'' @ s) ` fst ` set rest" using 2(4) by auto
  from 2(1)[OF m ne c r k n] show ?case .
qed

lemma add_commentaries_total:
  assumes "\<forall>(s, es)\<in>set cs. \<forall>e\<in>set es. well_formed e" and "df \<noteq> []"
  shows "\<exists>df'. add_commentaries cs df = Inr df'"
  using assms
proof (induction cs df rule: add_commentaries.induct)
  case (1 df)
  then show ?case by simp
next
  case (2 source entries rest df)
  from 2(2) have w: "\<forall>e\<in>set entries. well_formed e" by auto
  from commentary_cell_joined[OF w] obtain m where m: "entries_loop entries [] = Inr m"
    and j: "\<forall>r. commentary_cell m r = Inr (joined entries r)" by blast
  have c: "cells m df = Inr (map (\<lambda>p. joined entries (fst p)) df)" using j by (rule cells_total)
  from 2(2) have wr: "\<forall>(s, es)\<in>set rest. \<forall>e\<in>set es. well_formed e" by auto
  have ne: "set_column (''commentary_'' @ source) (map (\<lambda>p. joined entries (fst p)) df) df \<noteq> []"
    using 2(3) by (simp add: set_column_map_empty)
  from 2(1)[OF m 2(3) c wr ne] show ?case using m c 2(3) by simp
qed

lemma add_commentaries_column:
  assumes "add_commentaries cs df = Inr df'"
    and "distinct (map fst cs)" and "(s, es) \<in> set cs"
  shows "\<forall>p\<in>set df'. map_of (snd p) (''commentary_'' @ s) = Some (joined es (fst p))
                     \<and> str_contents es (fst p)"
  using assms
proof (induction cs df arbitrary: df' rule: add_commentaries.induct)
  case (1 df)
  then show ?case by simp
next
  case (2 source entries rest df)
  from 2(2) obtain m vals where m: "entries_loop entries [] = Inr m" and ne: "df \<noteq> []"
    and c: "cells m df = Inr vals"
    and r: "add_commentaries rest (set_column (''commentary_'' @ source) vals df) = Inr df'"
    by (auto split: sum.splits if_splits)
  have v: "vals = map (\<lambda>p. cell_of m (fst p)) df" using c by (rule cells_map)
  have dr: "distinct (map fst rest)" using 2(3) by simp
  show ?case
  proof (cases "(s, es) = (source, entries)")
    case True
    then have ss: "s = source" and ee: "es = entries" by simp_all
    have "source \<notin> fst ` set rest" using 2(3) by auto
    then have n: "''commentary_'' @ source \<notin> (\<lambda>s. ''commentary_'' @ s) ` fst ` set rest" by auto
    have k: "\<forall>p\<in>set df'. map_of (snd p) (''commentary_'' @ source) = Some (cell_of m (fst p))"
      using r[unfolded v] set_column_sets n by (rule add_commentaries_keeps)
    have f: "map fst df' = map fst df"
      using add_commentaries_fst[OF r] unfolding v by (simp add: fst_set_column_map)
    show ?thesis unfolding ss ee
    proof (intro ballI)
      fix p assume p: "p \<in> set df'"
      then have "fst p \<in> set (map fst df')" by simp
      then have "fst p \<in> fst ` set df" unfolding f by simp
      with c have "commentary_cell m (fst p) = Inr (cell_of m (fst p))" by (rule cells_each)
      with m have "cell_of m (fst p) = joined entries (fst p) \<and> str_contents entries (fst p)"
        by (rule source_cell)
      with k p show "map_of (snd p) (''commentary_'' @ source) = Some (joined entries (fst p))
                     \<and> str_contents entries (fst p)" by simp
    qed
  next
    case False
    then have "(s, es) \<in> set rest" using 2(4) by auto
    from 2(1)[OF m ne c r dr this] show ?thesis .
  qed
qed

lemma create_inr:
  assumes "create_verse_aligned_dataset bibles commentaries = Inr df"
  obtains df0 where "add_translations bibles (map (\<lambda>r. (r, [])) (collect_refs bibles)) = Inr df0"
    and "add_commentaries commentaries df0 = Inr df"
  using assms unfolding create_verse_aligned_dataset_def by (auto split: sum.splits)

lemma create_fst:
  assumes "create_verse_aligned_dataset bibles commentaries = Inr df"
  shows "map fst df = collect_refs bibles"
proof -
  from assms obtain df0 where
    t: "add_translations bibles (map (\<lambda>r. (r, [])) (collect_refs bibles)) = Inr df0"
    and c: "add_commentaries commentaries df0 = Inr df" by (rule create_inr)
  have "map fst df = map fst df0" using c by (rule add_commentaries_fst)
  then show ?thesis using fst_add_translations[OF t] by (simp add: comp_def)
qed

lemma collect_refs_empty_iff:
  "collect_refs bibles = [] \<longleftrightarrow> (\<Union>(t, bd)\<in>set bibles. corpus_keys bd) = {}"
proof -
  have "collect_refs bibles = [] \<longleftrightarrow> set (collect_refs bibles) = {}" by simp
  also have "\<dots> \<longleftrightarrow> (\<Union>(t, bd)\<in>set bibles. corpus_keys bd) = {}"
    unfolding set_collect_refs by simp
  finally show ?thesis .
qed

lemma create_empty:
  assumes "collect_refs bibles = []" and "bibles \<noteq> []"
  shows "create_verse_aligned_dataset bibles commentaries = Inl ValueError"
  unfolding create_verse_aligned_dataset_def using assms by (simp add: add_translations_empty)

lemma create_total:
  assumes "collect_refs bibles \<noteq> []"
    and "\<forall>(s, es)\<in>set commentaries. \<forall>e\<in>set es. well_formed e"
  shows "\<exists>df. create_verse_aligned_dataset bibles commentaries = Inr df"
proof -
  have "map (\<lambda>r. (r, [])) (collect_refs bibles) \<noteq> []" using assms(1) by simp
  from add_translations_total[OF this, of bibles] obtain df0 where
    t: "add_translations bibles (map (\<lambda>r. (r, [])) (collect_refs bibles)) = Inr df0"
    and ne: "df0 \<noteq> []" by blast
  from add_commentaries_total[OF assms(2) ne] obtain df where "add_commentaries commentaries df0 = Inr df"
    by blast
  with t show ?thesis unfolding create_verse_aligned_dataset_def by simp
qed

section \<open>Facts about the markup parsers\<close>

lemma verse_loop_ok:
  "(\<exists>r. verse_loop vs acc = Inr r) \<longleftrightarrow> (\<forall>v\<in>set vs. numbered v)"
  by (induction vs arbitrary: acc) (auto simp: numbered_def split: sum.splits)

lemma chapter_loop_ok:
  "(\<exists>r. chapter_loop cs acc = Inr r) \<longleftrightarrow>
     (\<forall>c\<in>set cs. numbered c \<and> (\<forall>v\<in>set (find_all ''verse'' c). numbered v))"
proof (induction cs arbitrary: acc)
  case Nil
  then show ?case by simp
next
  case (Cons c cs)
  show ?case
  proof (cases "int_attr (get_attr c ''number'')")
    case (Inl err)
    then show ?thesis by (simp add: numbered_def)
  next
    case (Inr n)
    show ?thesis
    proof (cases "verse_loop (find_all ''verse'' c) []")
      case (Inl err)
      then have "\<not> (\<forall>v\<in>set (find_all ''verse'' c). numbered v)"
        using verse_loop_ok[of "find_all ''verse'' c" "[]"] by simp
      then show ?thesis using Inl Inr by auto
    next
      case vr: (Inr chapter_data)
      then have "\<forall>v\<in>set (find_all ''verse'' c). numbered v"
        using verse_loop_ok[of "find_all ''verse'' c" "[]"] by simp
      then show ?thesis using Inr vr Cons[of "AList.update n chapter_data acc"]
        by (simp add: numbered_def)
    qed
  qed
qed

lemma book_loop_ok:
  "(\<exists>r. book_loop bs acc = Inr r) \<longleftrightarrow>
     (\<forall>b\<in>set bs. \<forall>c\<in>set (find_all ''chapter'' b).
         numbered c \<and> (\<forall>v\<in>set (find_all ''verse'' c). numbered v))"
proof (induction bs arbitrary: acc)
  case Nil
  then show ?case by simp
next
  case (Cons b bs)
  show ?case
  proof (cases "chapter_loop (find_all ''chapter'' b) []")
    case (Inl err)
    then have "\<not> (\<forall>c\<in>set (find_all ''chapter'' b). numbered c \<and> (\<forall>v\<in>set (find_all ''verse'' c). numbered v))"
      using chapter_loop_ok[of "find_all ''chapter'' b" "[]"] by simp
    then show ?thesis using Inl by auto
  next
    case (Inr book_data)
    then have "\<forall>c\<in>set (find_all ''chapter'' b). numbered c \<and> (\<forall>v\<in>set (find_all ''verse'' c). numbered v)"
      using chapter_loop_ok[of "find_all ''chapter'' b" "[]"] by simp
    then show ?thesis using Inr Cons[of "AList.update (get_attr b ''name'') book_data acc"]
      by simp
  qed
qed

lemma reference_fields_ok:
  "(\<exists>e. reference_fields r entry = Inr e) \<longleftrightarrow>
     opt_numeric (get_attr r ''chapter'') \<and> opt_numeric (get_attr r ''verse_start'')
     \<and> opt_numeric (get_attr r ''verse_end'')"
  unfolding reference_fields_def opt_numeric_def opt_int_attr_def
  by (auto simp: Let_def split: sum.splits option.splits if_splits)

lemma author_fields_ok:
  "(\<exists>e. author_fields a entry = Inr e) \<longleftrightarrow> opt_numeric (get_attr a ''year'')"
  unfolding author_fields_def opt_numeric_def
  by (auto simp: Let_def split: sum.splits)

lemma xml_entry_ok: "(\<exists>e. xml_entry source x = Inr e) \<longleftrightarrow> entry_ok x"
proof (cases "find_elem ''content'' x")
  case None
  then show ?thesis by (simp add: xml_entry_def entry_ok_def)
next
  case (Some content_elem)
  let ?entry = "[(''source'', PStr source),
                 (''content'', PStr (clean_commentary_text (elem_text content_elem))),
                 (''tradition'', PStr (case get_attr x ''tradition'' of
                                         None \<Rightarrow> ''unknown'' | Some t \<Rightarrow> t))]"
  show ?thesis
  proof (cases "find_elem ''reference'' x")
    case rn: None
    show ?thesis
    proof (cases "find_elem ''author'' x")
      case None
      then show ?thesis using Some rn by (simp add: xml_entry_def entry_ok_def)
    next
      case an: (Some a)
      then show ?thesis using Some rn author_fields_ok[of a ?entry]
        by (simp add: xml_entry_def entry_ok_def)
    qed
  next
    case rs: (Some r)
    show ?thesis
    proof (cases "reference_fields r ?entry")
      case (Inl err)
      then have "\<not> (opt_numeric (get_attr r ''chapter'') \<and> opt_numeric (get_attr r ''verse_start'')
                  \<and> opt_numeric (get_attr r ''verse_end''))"
        using reference_fields_ok[of r ?entry] by simp
      then show ?thesis using Some rs Inl by (auto simp: xml_entry_def entry_ok_def)
    next
      case (Inr entry1)
      then have ok: "opt_numeric (get_attr r ''chapter'') \<and> opt_numeric (get_attr r ''verse_start'')
                  \<and> opt_numeric (get_attr r ''verse_end'')"
        using reference_fields_ok[of r ?entry] by auto
      show ?thesis
      proof (cases "find_elem ''author'' x")
        case None
        then show ?thesis using Some rs Inr ok by (simp add: xml_entry_def entry_ok_def)
      next
        case an: (Some a)
        then show ?thesis using Some rs Inr ok author_fields_ok[of a entry1]
          by (simp add: xml_entry_def entry_ok_def)
      qed
    qed
  qed
qed

lemma entry_loop_ok:
  "(\<exists>r. entry_loop source xs acc = Inr r) \<longleftrightarrow> (\<forall>x\<in>set xs. entry_ok x)"
proof (induction xs arbitrary: acc)
  case Nil
  then show ?case by simp
next
  case (Cons x xs)
  show ?case
  proof (cases "xml_entry source x")
    case (Inl err)
    then have "\<not> entry_ok x" using xml_entry_ok[of source x] by simp
    then show ?thesis using Inl by simp
  next
    case (Inr e)
    then have "entry_ok x" using xml_entry_ok[of source x] by auto
    then show ?thesis using Inr Cons[of "acc @ [e]"] by simp
  qed
qed

section \<open>Facts about the plain-text parser\<close>

lemma digit_str_takeWhile: "takeWhile is_digit s \<noteq> [] \<Longrightarrow> digit_str (takeWhile is_digit s)"
  unfolding digit_str_def list_all_iff by (auto dest: set_takeWhileD)

lemma match_ref_digits:
  assumes "match_ref s = Some (g1, g2, g3, r)"
  shows "digit_str g2 \<and> digit_str g3"
proof -
  let ?s4 = "dropWhile is_space (dropWhile is_alpha (dropWhile is_space (snd (opt_book_digit s))))"
  from assms obtain c s6 where g2: "g2 = takeWhile is_digit ?s4" and n2: "g2 \<noteq> []"
    and g3: "g3 = takeWhile is_digit s6" and n3: "g3 \<noteq> []"
    unfolding match_ref_def
    by (auto simp: Let_def split_def split: if_splits list.splits)
  show ?thesis using n2 n3 unfolding g2 g3 by (auto intro: digit_str_takeWhile)
qed

lemma match_bcv_digits:
  assumes "match_bcv s = Some (g1, g2, g3, body, rest)"
  shows "digit_str g2 \<and> digit_str g3"
proof -
  from assms obtain r where "match_ref s = Some (g1, g2, g3, r)"
    unfolding match_bcv_def by (auto simp: Let_def split_def split: option.splits if_splits)
  then show ?thesis by (rule match_ref_digits)
qed

lemma finditer_digits:
  "\<forall>m\<in>set (finditer_bcv s). digit_str (fst (snd m)) \<and> digit_str (fst (snd (snd m)))"
proof (induction s rule: finditer_bcv.induct)
  case (1 s)
  show ?case
  proof (cases "match_bcv s")
    case None
    show ?thesis
    proof (cases s)
      case Nil
      then show ?thesis using None by (subst finditer_bcv.simps) simp
    next
      case (Cons c cs)
      from 1(1)[OF None Cons] show ?thesis
        using None Cons by (subst finditer_bcv.simps) simp
    qed
  next
    case (Some m)
    obtain g1 g2 g3 body rest where m: "m = (g1, g2, g3, body, rest)" by (cases m) auto
    have d: "digit_str g2 \<and> digit_str g3" using Some unfolding m by (rule match_bcv_digits)
    from 1(2)[OF Some[unfolded m] refl refl refl refl]
    have ih: "\<forall>m\<in>set (finditer_bcv rest). digit_str (fst (snd m)) \<and> digit_str (fst (snd (snd m)))" .
    show ?thesis using Some m d ih by (subst finditer_bcv.simps) simp
  qed
qed

lemma digits_us_digits: "list_all is_digit g \<Longrightarrow> digits_us g"
  by (induction g rule: digits_us.induct) auto

lemma not_c_space_digit: "is_digit c \<Longrightarrow> \<not> c_space c"
  by (auto simp: is_digit_def c_space_def)

lemma dropWhile_hd: "xs \<noteq> [] \<Longrightarrow> \<not> P (hd xs) \<Longrightarrow> dropWhile P xs = xs"
  by (cases xs) auto

lemma int_strip_digits:
  assumes "digit_str g"
  shows "int_strip g = g"
proof -
  from assms have ne: "g \<noteq> []" and all: "\<forall>c\<in>set g. is_digit c"
    unfolding digit_str_def list_all_iff by auto
  have "is_digit (hd g)" using ne all by simp
  then have h: "\<not> c_space (hd g)" by (rule not_c_space_digit)
  have "is_digit (last g)" using ne all by simp
  then have l: "\<not> c_space (last g)" by (rule not_c_space_digit)
  have 1: "dropWhile c_space g = g" using ne h by (rule dropWhile_hd)
  have "hd (rev g) = last g" using ne by (simp add: hd_rev)
  then have "\<not> c_space (hd (rev g))" using l by simp
  moreover have "rev g \<noteq> []" using ne by simp
  ultimately have 2: "dropWhile c_space (rev g) = rev g" by (intro dropWhile_hd)
  show ?thesis unfolding int_strip_def 1 2 by simp
qed

lemma int_of_str_digits:
  assumes "digit_str g"
  shows "int_of_str g = (if length g \<le> max_str_digits then Some (digits_val g) else None)"
proof -
  from assms have ne: "g \<noteq> []" and la: "list_all is_digit g" unfolding digit_str_def by auto
  then obtain c r where g: "g = c # r" by (cases g) auto
  have dc: "is_digit c" using la g by simp
  have c1: "c \<noteq> CHR ''-''" and c2: "c \<noteq> CHR ''+''" using dc by (auto simp: is_digit_def)
  have f: "filter is_digit g = g" using la by (simp add: list_all_iff)
  have v: "valid_digits g \<longleftrightarrow> length g \<le> max_str_digits"
    unfolding valid_digits_def f using ne dc g digits_us_digits[OF la] by simp
  have "int_of_str g = (if valid_digits g then Some (digits_val (filter is_digit g)) else None)"
    unfolding int_of_str_def int_strip_digits[OF assms] Let_def using c1 c2 unfolding g by simp
  then show ?thesis unfolding v f .
qed

lemma store_verse_eq:
  "store_verse bd ((b, c, v), body) = set_verse bd b c v (clean_bible_text body)"
  by (simp add: store_verse_def)

lemma txt_loop_fold:
  assumes "\<forall>m\<in>set ms. digit_str (fst (snd m)) \<and> digit_str (fst (snd (snd m)))"
  shows "txt_loop ms bd =
     (if list_all (\<lambda>(g1, g2, g3, g4). length g2 \<le> max_str_digits \<and> length g3 \<le> max_str_digits) ms
      then Inr (foldl store_verse bd
                  (map (\<lambda>(g1, g2, g3, g4). ((strip g1, digits_val g2, digits_val g3), g4)) ms))
      else Inl ValueError)"
  using assms
proof (induction ms arbitrary: bd)
  case Nil
  then show ?case by simp
next
  case (Cons m ms)
  obtain g1 g2 g3 g4 where m: "m = (g1, g2, g3, g4)" by (cases m) auto
  from Cons(2) have d2: "digit_str g2" and d3: "digit_str g3"
    and r: "\<forall>m\<in>set ms. digit_str (fst (snd m)) \<and> digit_str (fst (snd (snd m)))"
    unfolding m by simp_all
  show ?case unfolding m
    using Cons(1)[OF r] by (simp add: int_of_str_digits[OF d2] int_of_str_digits[OF d3] store_verse_eq)
qed

lemma lookup_set_verse:
  "lookup_verse (set_verse bd b c v t) k = (if k = (b, c, v) then Some t else lookup_verse bd k)"
proof (cases k)
  case (fields kb kc kv)
  show ?thesis unfolding fields lookup_verse_def set_verse_def Let_def
    by (auto simp: update_conv' split: option.splits)
qed

lemma lookup_foldl:
  "lookup_verse (foldl store_verse bd os) k =
     (let fs = filter (\<lambda>oc. fst oc = k) os in
      if fs = [] then lookup_verse bd k else Some (clean_bible_text (snd (last fs))))"
proof (induction os rule: rev_induct)
  case Nil
  then show ?case by simp
next
  case (snoc oc os)
  obtain b c v body where oc: "oc = ((b, c, v), body)" by (cases oc) auto
  show ?case using snoc unfolding oc
    by (simp add: store_verse_eq lookup_set_verse Let_def)
qed

lemma lookup_verse_Nil: "lookup_verse [] k = None"
  by (simp add: lookup_verse_def)

section \<open>Facts about the JSON parsers\<close>




text \<open>
  C1 (as stated). \<^verbatim>\<open>clean_bible_text\<close> is not idempotent: the first pass turns
  \<^verbatim>\<open>"John 3:16"\<close> into \<^verbatim>\<open>"John [3:16] "\<close>, and the second pass removes the bracketed
  token again, leaving \<^verbatim>\<open>"John"\<close>.
\<close>

theorem clean_bible_text_idempotent_counterexample:
  "clean_bible_text (clean_bible_text ''John 3:16'') \<noteq> clean_bible_text ''John 3:16''"
  by code_simp

text \<open>
  C1 (amended). On ASCII text without a decimal digit, without an opening square bracket
  and without a footnote marker, a second pass of \<^verbatim>\<open>clean_bible_text\<close> changes nothing.
\<close>

theorem clean_bible_text_idempotent_plain:
  assumes "\<forall>c\<in>set x. ascii c \<and> \<not> is_digit c \<and> c \<noteq> CHR ''['' \<and> \<not> is_marker c"
  shows "clean_bible_text (clean_bible_text x) = clean_bible_text x"
proof -
  have "plain x" using assms by (simp add: plain_def)
  then show ?thesis using clean_plain_tidy[of x] by (intro clean_tidy_id) auto
qed

theorem clean_bible_text_idempotent_plain_witness:
  "list_all (\<lambda>c. ascii c \<and> \<not> is_digit c \<and> c \<noteq> CHR ''['' \<and> \<not> is_marker c)
     ''In  the beginning , God''
   \<and> clean_bible_text ''In  the beginning , God'' = ''In the beginning, God''
   \<and> clean_bible_text (clean_bible_text ''In  the beginning , God'') = ''In the beginning, God''"
proof -
  have l: "list_all (\<lambda>c. ascii c \<and> \<not> is_digit c \<and> c \<noteq> CHR ''['' \<and> \<not> is_marker c)
     ''In  the beginning , God''"
    by (simp add: ascii_def is_digit_def is_marker_def)
  have h: "\<forall>c\<in>set ''In  the beginning , God''.
             ascii c \<and> \<not> is_digit c \<and> c \<noteq> CHR ''['' \<and> \<not> is_marker c"
    using l unfolding list_all_iff .
  have e: "clean_bible_text ''In  the beginning , God'' = ''In the beginning, God''"
    by code_simp
  have i: "clean_bible_text (clean_bible_text ''In  the beginning , God'')
           = clean_bible_text ''In  the beginning , God''"
    by (rule clean_bible_text_idempotent_plain[OF h])
  have j: "clean_bible_text (clean_bible_text ''In  the beginning , God'') = ''In the beginning, God''"
    using i unfolding e .
  show ?thesis by (intro conjI) (rule l, rule e, rule j)
qed

text \<open>
  C9. \<^verbatim>\<open>clean_bible_text\<close> can return text that ends in whitespace although
  \<^verbatim>\<open>normalize_text\<close> trims: on \<^verbatim>\<open>"John 3:16"\<close> the normalizer returns the trimmed text
  unchanged, the verse rewrite then appends the token \<^verbatim>\<open>"[3:16] "\<close> with its trailing
  space, and nothing removes that space afterwards.
\<close>

theorem clean_bible_text_trailing_space:
  "normalize_text ''John 3:16'' = ''John 3:16''
   \<and> clean_bible_text ''John 3:16'' = ''John [3:16] ''
   \<and> last (clean_bible_text ''John 3:16'') = CHR '' ''"
  by code_simp

text \<open>
  C10. \<^verbatim>\<open>normalize_text\<close> can return two consecutive spaces: whitespace is collapsed
  before bracketed spans are removed, so \<^verbatim>\<open>"a [x] b"\<close> becomes \<^verbatim>\<open>"a  b"\<close>.
\<close>

theorem normalize_text_double_space:
  "normalize_text ''a [x] b'' = ''a  b''"
  by code_simp

text \<open>
  C7 (as stated). A protected term that stands inside a bracketed span of the input does
  not reach the output at all: \<^verbatim>\<open>normalize_text\<close> removes the span before the terms
  are looked for.
\<close>

theorem protected_term_counterexample:
  "clean_commentary_text ''the [lord] said'' = ''the  said''"
  by code_simp

text \<open>
  C7 (amended). For every protected term \<open>t\<close> and every text: where the normalized
  text holds some casing \<open>w\<close> of \<open>t\<close> as a whole word (not preceded and not followed by a
  word character), the output of \<^verbatim>\<open>clean_commentary_text\<close> holds \<open>t\<close> itself at the
  same position; and every whole-word occurrence of a casing of \<open>t\<close> in the output is
  \<open>t\<close> in its canonical casing.
\<close>

theorem protected_terms_canonical:
  assumes "(t, r) \<in> set theological_terms"
    and "map to_lower w = map to_lower t"
    and "pre = [] \<or> \<not> is_word (last pre)" and "post = [] \<or> \<not> is_word (hd post)"
  shows "(normalize_text x = pre @ w @ post \<longrightarrow>
           (\<exists>pre' post'. clean_commentary_text x = pre' @ t @ post' \<and>
                          length pre' = length pre \<and> length post' = length post))
       \<and> (clean_commentary_text x = pre @ w @ post \<longrightarrow> w = t)"
proof (intro conjI impI)
  let ?z = "clean_commentary_text x"
  have ci: "map to_lower ?z = map to_lower (normalize_text x)"
    unfolding clean_commentary_text_fold using terms_ok_theological by (rule fold_ci)
  have lw: "length w = length t" using assms(2) by (rule map_eq_imp_length_eq)
  {
    assume n: "normalize_text x = pre @ w @ post"
    have e: "take (length t) (drop (length pre) ?z) = t"
      using assms(1) refl n assms(2,3,4) by (rule canonical_at)
    have lz: "length ?z = length pre + length t + length post"
      using map_eq_imp_length_eq[OF ci] n lw by simp
    let ?pre' = "take (length pre) ?z"
    let ?post' = "drop (length t) (drop (length pre) ?z)"
    have "?z = ?pre' @ drop (length pre) ?z" by simp
    also have "drop (length pre) ?z = take (length t) (drop (length pre) ?z) @ ?post'"
      by (rule append_take_drop_id[symmetric])
    finally have "?z = ?pre' @ t @ ?post'" unfolding e .
    moreover have "length ?pre' = length pre" using lz by simp
    moreover have "length ?post' = length post" using lz by simp
    ultimately show "\<exists>pre' post'. ?z = pre' @ t @ post' \<and>
                          length pre' = length pre \<and> length post' = length post"
      by (intro exI[of _ ?pre'] exI[of _ ?post'] conjI)
  }
  {
    assume z: "?z = pre @ w @ post"
    have "take (length t) (drop (length pre) ?z) = t"
      using assms(1) ci z assms(2,3,4) by (rule canonical_at)
    then show "w = t" unfolding z using lw by simp
  }
qed


theorem protected_terms_canonical_witness:
  "(\<exists>pre' post'. clean_commentary_text ''the lord said'' = pre' @ ''LORD'' @ post' \<and>
                   length pre' = length ''the '' \<and> length post' = length '' said'')
   \<and> normalize_text ''the lord said'' = ''the '' @ ''lord'' @ '' said''"
proof -
  have h1: "(''LORD'', ''LORD'') \<in> set theological_terms"
    by (simp add: theological_terms_def)
  have h2: "map to_lower ''lord'' = map to_lower ''LORD''"
    by (simp add: to_lower_def is_upper_def)
  have h3: "''the '' = [] \<or> \<not> is_word (last ''the '')"
    by (simp add: is_word_def is_alpha_def is_upper_def is_lower_def is_digit_def)
  have h4: "'' said'' = [] \<or> \<not> is_word (hd '' said'')"
    by (simp add: is_word_def is_alpha_def is_upper_def is_lower_def is_digit_def)
  have n: "normalize_text ''the lord said'' = ''the '' @ ''lord'' @ '' said''"
    by code_simp
  from protected_terms_canonical[OF h1 h2 h3 h4, of "''the lord said''"] n
  show ?thesis by (intro conjI) (elim conjE, erule (1) mp, rule n)
qed

section \<open>Properties of the alignment engine\<close>

text \<open>
  C2 (as stated). For a family of corpora that holds no verse at all, such as one
  translation with an empty corpus, the engine returns no table: the frame has no rows,
  and writing the first text column raises \<^verbatim>\<open>ValueError\<close>.
\<close>

theorem aligned_empty_corpus_counterexample:
  "create_verse_aligned_dataset [(''KJV'', [])] [] = Inl ValueError"
  by code_simp

text \<open>
  C2 (amended). For corpora given under distinct translation names: when some corpus
  holds a verse, the engine returns a table if there are no commentaries; when there are
  translations but no corpus holds a verse, it raises \<^verbatim>\<open>ValueError\<close>; and whenever it
  returns a table, that table has exactly one row for every key
  \<^verbatim>\<open>(book, chapter, verse)\<close> that occurs in some corpus and no other row, and in every row
  the text column of a translation holds what the lookup in that corpus gives, which is
  the empty string when the corpus lacks the key.
\<close>

theorem aligned_one_row_per_key:
  assumes "distinct (map fst bibles)"
  shows "((\<Union>(t, bd)\<in>set bibles. corpus_keys bd) \<noteq> {} \<longrightarrow>
            (\<exists>df. create_verse_aligned_dataset bibles [] = Inr df))
       \<and> ((\<Union>(t, bd)\<in>set bibles. corpus_keys bd) = {} \<and> bibles \<noteq> [] \<longrightarrow>
            create_verse_aligned_dataset bibles commentaries = Inl ValueError)
       \<and> (\<forall>df. create_verse_aligned_dataset bibles commentaries = Inr df \<longrightarrow>
             distinct (map (\<lambda>p. ref_key (fst p)) df)
           \<and> set (map (\<lambda>p. ref_key (fst p)) df) = (\<Union>(t, bd)\<in>set bibles. corpus_keys bd)
           \<and> (\<forall>(t, bd)\<in>set bibles. \<forall>(r, cols)\<in>set df.
                 map_of cols (''text_'' @ t) = Some (get_text bd r)
               \<and> (ref_key r \<notin> corpus_keys bd \<longrightarrow> map_of cols (''text_'' @ t) = Some [])))"
proof (intro conjI allI impI)
  assume "(\<Union>(t, bd)\<in>set bibles. corpus_keys bd) \<noteq> {}"
  then have "collect_refs bibles \<noteq> []" unfolding collect_refs_empty_iff .
  then show "\<exists>df. create_verse_aligned_dataset bibles [] = Inr df"
    by (rule create_total) simp
next
  assume "(\<Union>(t, bd)\<in>set bibles. corpus_keys bd) = {} \<and> bibles \<noteq> []"
  then have "collect_refs bibles = []" and "bibles \<noteq> []" unfolding collect_refs_empty_iff by simp_all
  then show "create_verse_aligned_dataset bibles commentaries = Inl ValueError"
    by (rule create_empty)
next
  fix df assume r: "create_verse_aligned_dataset bibles commentaries = Inr df"
  from r obtain df0 where
    t0: "add_translations bibles (map (\<lambda>r. (r, [])) (collect_refs bibles)) = Inr df0"
    and c0: "add_commentaries commentaries df0 = Inr df" by (rule create_inr)
  have f: "map fst df = collect_refs bibles" using r by (rule create_fst)
  have k: "map (\<lambda>p. ref_key (fst p)) df = map ref_key (collect_refs bibles)"
    unfolding f[symmetric] by (simp add: comp_def)
  show "distinct (map (\<lambda>p. ref_key (fst p)) df)"
    unfolding k by (rule distinct_keys_collect_refs)
  show "set (map (\<lambda>p. ref_key (fst p)) df) = (\<Union>(t, bd)\<in>set bibles. corpus_keys bd)"
    unfolding k set_map set_collect_refs image_image ref_key_key_ref by simp
  show "\<forall>(t, bd)\<in>set bibles. \<forall>(r, cols)\<in>set df.
                 map_of cols (''text_'' @ t) = Some (get_text bd r)
               \<and> (ref_key r \<notin> corpus_keys bd \<longrightarrow> map_of cols (''text_'' @ t) = Some [])"
  proof (intro ballI, clarify)
    fix t bd rr cols
    assume m: "(t, bd) \<in> set bibles" and p: "(rr, cols) \<in> set df"
    have c: "\<forall>p\<in>set df0. map_of (snd p) (''text_'' @ t) = Some (get_text bd (fst p))"
      using t0 assms m by (rule add_translations_column)
    have "\<forall>p\<in>set df. map_of (snd p) (''text_'' @ t) = Some (get_text bd (fst p))"
      using c0 c text_name_not_commentary by (rule add_commentaries_keeps)
    with p have e: "map_of cols (''text_'' @ t) = Some (get_text bd rr)" by force
    show "map_of cols (''text_'' @ t) = Some (get_text bd rr)
          \<and> (ref_key rr \<notin> corpus_keys bd \<longrightarrow> map_of cols (''text_'' @ t) = Some [])"
      using e get_text_missing[of rr bd] by simp
  qed
qed

theorem aligned_one_row_per_key_witness:
  "distinct (map fst
     [(''A'', [(''Genesis'', [(1::int, [(1::int, ''In the beginning'')])])]),
      (''B'', [(''Genesis'', [(1, [(1, ''In the beginning God''), (2, ''Now the earth'')])])])])
   \<and> (\<exists>df. create_verse_aligned_dataset
        [(''A'', [(''Genesis'', [(1::int, [(1::int, ''In the beginning'')])])]),
      (''B'', [(''Genesis'', [(1, [(1, ''In the beginning God''), (2, ''Now the earth'')])])])] []
        = Inr df
      \<and> map (\<lambda>p. ref_reference (fst p)) df = [''Genesis 1:1'', ''Genesis 1:2'']
      \<and> distinct (map (\<lambda>p. ref_key (fst p)) df)
      \<and> map (\<lambda>p. map_of (snd p) ''text_A'') df = [Some ''In the beginning'', Some []])"
proof -
  let ?b = "[(''A'', [(''Genesis'', [(1::int, [(1::int, ''In the beginning'')])])]),
      (''B'', [(''Genesis'', [(1, [(1, ''In the beginning God''), (2, ''Now the earth'')])])])]"
  let ?df = "[(mk_ref ''Genesis'' 1 1, [(''text_A'', ''In the beginning''), (''text_B'', ''In the beginning God'')]),
              (mk_ref ''Genesis'' 1 2, [(''text_A'', []), (''text_B'', ''Now the earth'')])]"
  have d: "distinct (map fst ?b)" by simp
  have e: "create_verse_aligned_dataset ?b [] = Inr ?df" by code_simp
  have r: "map (\<lambda>p. ref_reference (fst p)) ?df = [''Genesis 1:1'', ''Genesis 1:2'']" by code_simp
  have t: "map (\<lambda>p. map_of (snd p) ''text_A'') ?df = [Some ''In the beginning'', Some []]" by simp
  from aligned_one_row_per_key[OF d, of "[]"] e
  have "distinct (map (\<lambda>p. ref_key (fst p)) ?df)" by blast
  with e r t have "\<exists>df. create_verse_aligned_dataset ?b [] = Inr df
      \<and> map (\<lambda>p. ref_reference (fst p)) df = [''Genesis 1:1'', ''Genesis 1:2'']
      \<and> distinct (map (\<lambda>p. ref_key (fst p)) df)
      \<and> map (\<lambda>p. map_of (snd p) ''text_A'') df = [Some ''In the beginning'', Some []]"
    by (intro exI[of _ ?df] conjI)
  with d show ?thesis by (rule conjI)
qed

text \<open>
  C3. For sources with distinct names: whenever the engine returns a table, its rows
  are the collected references, and in every row the commentary column of a source is the
  contents of the records of that source that cover the row, in the order of the records,
  joined with \<^verbatim>\<open>"; "\<close>; every such record has a string as content. A record so appears
  in exactly the rows of its book and chapter whose verse lies in its range, and a row
  that no record covers gets the empty string. The engine does return a table when every
  record is well formed and some corpus holds a verse.
\<close>

theorem commentary_range_join:
  assumes "distinct (map fst commentaries)"
  shows "(\<forall>df. create_verse_aligned_dataset bibles commentaries = Inr df \<longrightarrow>
            map fst df = collect_refs bibles
          \<and> (\<forall>(s, es)\<in>set commentaries. \<forall>(r, cols)\<in>set df.
                map_of cols (''commentary_'' @ s)
                = Some (join_sep ''; '' (map content_str (filter (\<lambda>e. covers e r) es)))
              \<and> (\<forall>e\<in>set es. covers e r \<longrightarrow> map_of e ''content'' = Some (PStr (content_str e)))))
       \<and> ((\<forall>(s, es)\<in>set commentaries. \<forall>e\<in>set es. well_formed e) \<and> collect_refs bibles \<noteq> [] \<longrightarrow>
            (\<exists>df. create_verse_aligned_dataset bibles commentaries = Inr df))"
proof (intro conjI allI impI)
  fix df assume r: "create_verse_aligned_dataset bibles commentaries = Inr df"
  show "map fst df = collect_refs bibles" using r by (rule create_fst)
  from r obtain df0 where
    c0: "add_commentaries commentaries df0 = Inr df" by (rule create_inr)
  show "\<forall>(s, es)\<in>set commentaries. \<forall>(r, cols)\<in>set df.
                map_of cols (''commentary_'' @ s)
                = Some (join_sep ''; '' (map content_str (filter (\<lambda>e. covers e r) es)))
              \<and> (\<forall>e\<in>set es. covers e r \<longrightarrow> map_of e ''content'' = Some (PStr (content_str e)))"
  proof (intro ballI, clarify)
    fix s es rr cols
    assume m: "(s, es) \<in> set commentaries" and p: "(rr, cols) \<in> set df"
    have "\<forall>p\<in>set df. map_of (snd p) (''commentary_'' @ s) = Some (joined es (fst p))
                     \<and> str_contents es (fst p)"
      using c0 assms m by (rule add_commentaries_column)
    with p have "map_of cols (''commentary_'' @ s) = Some (joined es rr) \<and> str_contents es rr"
      by force
    then show "map_of cols (''commentary_'' @ s)
                = Some (join_sep ''; '' (map content_str (filter (\<lambda>e. covers e rr) es)))
              \<and> (\<forall>e\<in>set es. covers e rr \<longrightarrow> map_of e ''content'' = Some (PStr (content_str e)))"
      unfolding joined_def str_contents_def .
  qed
next
  assume "(\<forall>(s, es)\<in>set commentaries. \<forall>e\<in>set es. well_formed e) \<and> collect_refs bibles \<noteq> []"
  then have w: "\<forall>(s, es)\<in>set commentaries. \<forall>e\<in>set es. well_formed e"
    and n: "collect_refs bibles \<noteq> []" by simp_all
  from n w show "\<exists>df. create_verse_aligned_dataset bibles commentaries = Inr df"
    by (rule create_total)
qed

theorem commentary_range_join_witness:
  "distinct (map fst
     [(''mh'', [[(''content'', PStr ''c1''), (''book'', PStr ''John''), (''chapter'', PInt 3),
                 (''verse_start'', PInt 16), (''verse_end'', PInt 17)],
                [(''content'', PStr ''c2''), (''book'', PStr ''John''), (''chapter'', PInt 3),
                 (''verse_start'', PInt 17)],
                [(''content'', PStr ''c3'')]])])
   \<and> list_all (\<lambda>(s, es). list_all well_formed es)
     [(''mh'', [[(''content'', PStr ''c1''), (''book'', PStr ''John''), (''chapter'', PInt 3),
                 (''verse_start'', PInt 16), (''verse_end'', PInt 17)],
                [(''content'', PStr ''c2''), (''book'', PStr ''John''), (''chapter'', PInt 3),
                 (''verse_start'', PInt 17)],
                [(''content'', PStr ''c3'')]])]
   \<and> (\<exists>df. create_verse_aligned_dataset
          [(''KJV'', [(''John'', [(3::int, [(16::int, ''a''), (17, ''b''), (18, ''c'')])])])]
          [(''mh'', [[(''content'', PStr ''c1''), (''book'', PStr ''John''), (''chapter'', PInt 3),
                 (''verse_start'', PInt 16), (''verse_end'', PInt 17)],
                [(''content'', PStr ''c2''), (''book'', PStr ''John''), (''chapter'', PInt 3),
                 (''verse_start'', PInt 17)],
                [(''content'', PStr ''c3'')]])] = Inr df
        \<and> map (\<lambda>p. (ref_reference (fst p), map_of (snd p) ''commentary_mh'')) df
            = [(''John 3:16'', Some ''c1''), (''John 3:17'', Some ''c1; c2''), (''John 3:18'', Some [])])"
proof -
  let ?es = "[[(''content'', PStr ''c1''), (''book'', PStr ''John''), (''chapter'', PInt 3),
                 (''verse_start'', PInt 16), (''verse_end'', PInt 17)],
                [(''content'', PStr ''c2''), (''book'', PStr ''John''), (''chapter'', PInt 3),
                 (''verse_start'', PInt 17)],
                [(''content'', PStr ''c3'')]]"
  let ?cs = "[(''mh'', ?es)]"
  let ?bs = "[(''KJV'', [(''John'', [(3::int, [(16::int, ''a''), (17, ''b''), (18, ''c'')])])])]"
  have k: "collect_refs ?bs = [mk_ref ''John'' 3 16, mk_ref ''John'' 3 17, mk_ref ''John'' 3 18]"
    by code_simp
  have n16: "ref_reference (mk_ref ''John'' 3 16) = ''John 3:16''" by code_simp
  have n17: "ref_reference (mk_ref ''John'' 3 17) = ''John 3:17''" by code_simp
  have n18: "ref_reference (mk_ref ''John'' 3 18) = ''John 3:18''" by code_simp
  have j16: "join_sep ''; '' (map content_str (filter (\<lambda>e. covers e (mk_ref ''John'' 3 16)) ?es)) = ''c1''"
    by code_simp
  have j17: "join_sep ''; '' (map content_str (filter (\<lambda>e. covers e (mk_ref ''John'' 3 17)) ?es)) = ''c1; c2''"
    by code_simp
  have j18: "join_sep ''; '' (map content_str (filter (\<lambda>e. covers e (mk_ref ''John'' 3 18)) ?es)) = []"
    by code_simp
  have d: "distinct (map fst ?cs)" by simp
  have l: "list_all (\<lambda>(s, es). list_all well_formed es) ?cs" by code_simp
  have w: "\<forall>(s, es)\<in>set ?cs. \<forall>e\<in>set es. well_formed e"
    using l unfolding list_all_iff by (simp add: split_def)
  have ne: "collect_refs ?bs \<noteq> []" unfolding k by simp
  note cj = commentary_range_join[OF d, of ?bs]
  from cj w ne obtain df where r: "create_verse_aligned_dataset ?bs ?cs = Inr df" by blast
  from cj r have f: "map fst df = collect_refs ?bs"
    and c: "\<forall>(s, es)\<in>set ?cs. \<forall>(r, cols)\<in>set df.
              map_of cols (''commentary_'' @ s)
              = Some (join_sep ''; '' (map content_str (filter (\<lambda>e. covers e r) es)))
              \<and> (\<forall>e\<in>set es. covers e r \<longrightarrow> map_of e ''content'' = Some (PStr (content_str e)))"
    by blast+
  have c': "map_of (snd p) ''commentary_mh''
            = Some (join_sep ''; '' (map content_str (filter (\<lambda>e. covers e (fst p)) ?es)))"
    if "p \<in> set df" for p
    using c that by (cases p) force
  have "map (\<lambda>p. (ref_reference (fst p), map_of (snd p) ''commentary_mh'')) df
        = map (\<lambda>p. (ref_reference (fst p),
                 Some (join_sep ''; '' (map content_str (filter (\<lambda>e. covers e (fst p)) ?es))))) df"
    by (rule map_cong[OF refl]) (simp add: c')
  also have "\<dots> = map (\<lambda>r. (ref_reference r,
                 Some (join_sep ''; '' (map content_str (filter (\<lambda>e. covers e r) ?es)))))
                 (map fst df)"
    by (simp add: comp_def)
  also have "\<dots> = map (\<lambda>r. (ref_reference r,
                 Some (join_sep ''; '' (map content_str (filter (\<lambda>e. covers e r) ?es)))))
                 [mk_ref ''John'' 3 16, mk_ref ''John'' 3 17, mk_ref ''John'' 3 18]"
    unfolding f k ..
  also have "\<dots> = [(''John 3:16'', Some ''c1''), (''John 3:17'', Some ''c1; c2''), (''John 3:18'', Some [])]"
    unfolding list.map n16 n17 n18 j16 j17 j18 ..
  finally have "map (\<lambda>p. (ref_reference (fst p), map_of (snd p) ''commentary_mh'')) df
        = [(''John 3:16'', Some ''c1''), (''John 3:17'', Some ''c1; c2''), (''John 3:18'', Some [])]" .
  with r have "\<exists>df. create_verse_aligned_dataset ?bs ?cs = Inr df
        \<and> map (\<lambda>p. (ref_reference (fst p), map_of (snd p) ''commentary_mh'')) df
            = [(''John 3:16'', Some ''c1''), (''John 3:17'', Some ''c1; c2''), (''John 3:18'', Some [])]"
    by (intro exI[of _ df] conjI)
  with d l show ?thesis by (intro conjI)
qed

text \<open>
  C6. The markup parser writes all four reference fields as soon as an entry has a
  reference element, with \<^verbatim>\<open>None\<close> for what the element lacks. For an entry whose
  reference has a chapter only, the record is returned by the parser, passes the test of
  the alignment engine, which asks for the presence of the keys, and the engine then
  raises \<^verbatim>\<open>TypeError\<close> on \<^verbatim>\<open>verse_end + 1\<close>. So the alignment completes for no scripture
  corpora whatsoever: it ends in this \<^verbatim>\<open>TypeError\<close>, or, when there are translations
  that hold no verse, already in the \<^verbatim>\<open>ValueError\<close> of the first text column.
\<close>

theorem partial_reference_aborts_alignment:
  "process_xml_commentary
     (Elem ''[document]'' [] [Elem ''commentary'' [] [Elem ''entry'' []
        [Elem ''content'' [] [Text ''x''], Elem ''reference'' [(''chapter'', ''3'')] []]]]) ''mh''
   = Inr [[(''source'', PStr ''mh''), (''content'', PStr ''x''), (''tradition'', PStr ''unknown''),
           (''book'', PNone), (''chapter'', PInt 3), (''verse_start'', PNone), (''verse_end'', PNone)]]
   \<and> (\<forall>bibles. create_verse_aligned_dataset bibles
         [(''mh'', [[(''source'', PStr ''mh''), (''content'', PStr ''x''), (''tradition'', PStr ''unknown''),
           (''book'', PNone), (''chapter'', PInt 3), (''verse_start'', PNone), (''verse_end'', PNone)]])]
        = (if bibles \<noteq> [] \<and> collect_refs bibles = [] then Inl ValueError else Inl TypeError))"
proof (intro conjI allI)
  show "process_xml_commentary
     (Elem ''[document]'' [] [Elem ''commentary'' [] [Elem ''entry'' []
        [Elem ''content'' [] [Text ''x''], Elem ''reference'' [(''chapter'', ''3'')] []]]]) ''mh''
   = Inr [[(''source'', PStr ''mh''), (''content'', PStr ''x''), (''tradition'', PStr ''unknown''),
           (''book'', PNone), (''chapter'', PInt 3), (''verse_start'', PNone), (''verse_end'', PNone)]]"
    by code_simp
next
  fix bibles
  let ?cs = "[(''mh'', [[(''source'', PStr ''mh''), (''content'', PStr ''x''), (''tradition'', PStr ''unknown''),
           (''book'', PNone), (''chapter'', PInt 3), (''verse_start'', PNone), (''verse_end'', PNone)]])]"
  have e: "entries_loop [[(''source'', PStr ''mh''), (''content'', PStr ''x''), (''tradition'', PStr ''unknown''),
           (''book'', PNone), (''chapter'', PInt 3), (''verse_start'', PNone), (''verse_end'', PNone)]] [] = Inl TypeError" by code_simp
  have a: "add_commentaries ?cs df = Inl TypeError" for df
    using e by simp
  show "create_verse_aligned_dataset bibles ?cs
        = (if bibles \<noteq> [] \<and> collect_refs bibles = [] then Inl ValueError else Inl TypeError)"
  proof (cases "bibles \<noteq> [] \<and> collect_refs bibles = []")
    case True
    then show ?thesis by (simp add: create_empty)
  next
    case False
    have "\<exists>df0. add_translations bibles (map (\<lambda>r. (r, [])) (collect_refs bibles)) = Inr df0"
    proof (cases "bibles = []")
      case True
      then show ?thesis by simp
    next
      case False
      with \<open>\<not> (bibles \<noteq> [] \<and> collect_refs bibles = [])\<close>
      have "map (\<lambda>r. (r, [])) (collect_refs bibles) \<noteq> []" by simp
      from add_translations_total[OF this, of bibles] show ?thesis by blast
    qed
    then obtain df0 where "add_translations bibles (map (\<lambda>r. (r, [])) (collect_refs bibles)) = Inr df0"
      by blast
    then have "create_verse_aligned_dataset bibles ?cs = Inl TypeError"
      unfolding create_verse_aligned_dataset_def using a[of df0] by simp
    with False show ?thesis by simp
  qed
qed

section \<open>Properties of the markup parsers\<close>

text \<open>
  C5 (as stated). A defect of one element is not contained. A verse element without the
  \<^verbatim>\<open>number\<close> attribute makes the scripture parser raise \<^verbatim>\<open>TypeError\<close>, although its
  sibling verse is in order; an entry without a content element makes the commentary
  parser raise \<^verbatim>\<open>AttributeError\<close>, although its sibling entry is in order. Nothing is
  returned in either case.
\<close>

theorem markup_defect_counterexample:
  "process_xml_bible
     (Elem ''[document]'' [] [Elem ''bible'' [] [Elem ''book'' [(''name'', ''John'')]
        [Elem ''chapter'' [(''number'', ''3'')]
           [Elem ''verse'' [] [Text ''For God so loved the world''],
            Elem ''verse'' [(''number'', ''17'')] [Text ''For God sent not his Son'']]]]]) ''KJV''
   = Inl TypeError
   \<and> process_xml_commentary
     (Elem ''[document]'' [] [Elem ''commentary'' []
        [Elem ''entry'' [] [Elem ''author'' [] [Text ''Henry'']],
         Elem ''entry'' [] [Elem ''content'' [] [Text ''x'']]]]) ''mh''
   = Inl AttributeError"
  by code_simp

text \<open>
  C5 (amended). The scripture parser returns a corpus exactly when every chapter element
  below a book element, and every verse element below such a chapter, is numbered; the
  commentary parser returns records exactly when every entry element is in order. In
  every other case the whole parse ends in an exception.
\<close>

theorem markup_defect_aborts_parse:
  "((\<exists>bible_data. process_xml_bible soup translation = Inr bible_data) \<longleftrightarrow>
      (\<forall>b\<in>set (find_all ''book'' soup). \<forall>c\<in>set (find_all ''chapter'' b).
          numbered c \<and> (\<forall>v\<in>set (find_all ''verse'' c). numbered v)))
   \<and> ((\<exists>entries. process_xml_commentary soup source = Inr entries) \<longleftrightarrow>
      (\<forall>x\<in>set (find_all ''entry'' soup). entry_ok x))"
  unfolding process_xml_bible_def process_xml_commentary_def
  using book_loop_ok[of "find_all ''book'' soup" "[]"]
        entry_loop_ok[of source "find_all ''entry'' soup" "[]"]
  by simp

theorem markup_defect_aborts_parse_witness:
  "\<not> list_all (\<lambda>b. list_all (\<lambda>c. numbered c \<and> list_all numbered (find_all ''verse'' c))
                         (find_all ''chapter'' b))
       (find_all ''book''
     (Elem ''[document]'' [] [Elem ''bible'' [] [Elem ''book'' [(''name'', ''John'')]
        [Elem ''chapter'' [(''number'', ''3'')]
           [Elem ''verse'' [] [Text ''For God so loved the world''],
            Elem ''verse'' [(''number'', ''17'')] [Text ''For God sent not his Son'']]]]]))
   \<and> (\<nexists>bible_data. process_xml_bible
     (Elem ''[document]'' [] [Elem ''bible'' [] [Elem ''book'' [(''name'', ''John'')]
        [Elem ''chapter'' [(''number'', ''3'')]
           [Elem ''verse'' [] [Text ''For God so loved the world''],
            Elem ''verse'' [(''number'', ''17'')] [Text ''For God sent not his Son'']]]]]) ''KJV'' = Inr bible_data)
   \<and> list_all entry_ok (find_all ''entry''
     (Elem ''[document]'' [] [Elem ''commentary'' []
        [Elem ''entry'' [] [Elem ''content'' [] [Text ''x''], Elem ''reference'' [(''chapter'', ''3'')] []],
         Elem ''entry'' [] [Elem ''content'' [] [Text ''y'']]]]))
   \<and> (\<exists>entries. process_xml_commentary
     (Elem ''[document]'' [] [Elem ''commentary'' []
        [Elem ''entry'' [] [Elem ''content'' [] [Text ''x''], Elem ''reference'' [(''chapter'', ''3'')] []],
         Elem ''entry'' [] [Elem ''content'' [] [Text ''y'']]]]) ''mh'' = Inr entries)"
proof -
  let ?d1 = "(Elem ''[document]'' [] [Elem ''bible'' [] [Elem ''book'' [(''name'', ''John'')]
        [Elem ''chapter'' [(''number'', ''3'')]
           [Elem ''verse'' [] [Text ''For God so loved the world''],
            Elem ''verse'' [(''number'', ''17'')] [Text ''For God sent not his Son'']]]]])"
  let ?d2 = "(Elem ''[document]'' [] [Elem ''commentary'' []
        [Elem ''entry'' [] [Elem ''content'' [] [Text ''x''], Elem ''reference'' [(''chapter'', ''3'')] []],
         Elem ''entry'' [] [Elem ''content'' [] [Text ''y'']]]])"
  have n: "\<not> list_all (\<lambda>b. list_all (\<lambda>c. numbered c \<and> list_all numbered (find_all ''verse'' c))
                         (find_all ''chapter'' b)) (find_all ''book'' ?d1)"
    by code_simp
  have p: "list_all entry_ok (find_all ''entry'' ?d2)"
    by code_simp
  from n have n': "\<not> (\<forall>b\<in>set (find_all ''book'' ?d1). \<forall>c\<in>set (find_all ''chapter'' b).
          numbered c \<and> (\<forall>v\<in>set (find_all ''verse'' c). numbered v))"
    unfolding list_all_iff .
  from p have p': "\<forall>x\<in>set (find_all ''entry'' ?d2). entry_ok x"
    unfolding list_all_iff .
  from markup_defect_aborts_parse[of ?d1 "''KJV''" "''mh''"] n'
  have a: "\<nexists>bible_data. process_xml_bible ?d1 ''KJV'' = Inr bible_data" by blast
  from markup_defect_aborts_parse[of ?d2 "''KJV''" "''mh''"] p'
  have b: "\<exists>entries. process_xml_commentary ?d2 ''mh'' = Inr entries" by blast
  from n a p b show ?thesis by (intro conjI)
qed

section \<open>Properties of the plain-text parser\<close>

text \<open>
  C8. Whenever the plain-text parser returns a corpus, the corpus holds under every key
  the cleaned body of the last occurrence of that key in the text, and nothing under a key
  that does not occur: a later occurrence overwrites the earlier ones. The parser does
  return a corpus for every text whose chapter and verse numbers are short.
\<close>

theorem txt_last_write_wins:
  "(\<forall>bible_data. process_txt_bible content translation = Inr bible_data \<longrightarrow>
      (\<forall>k. lookup_verse bible_data k =
            (let os = filter (\<lambda>oc. fst oc = k) (occurrences content) in
             if os = [] then None else Some (clean_bible_text (snd (last os))))))
   \<and> (short_numbers content \<longrightarrow>
        (\<exists>bible_data. process_txt_bible content translation = Inr bible_data))"
proof -
  have e: "process_txt_bible content translation =
     (if short_numbers content then Inr (foldl store_verse [] (occurrences content))
      else Inl ValueError)"
    unfolding process_txt_bible_def short_numbers_def occurrences_def
    using finditer_digits by (rule txt_loop_fold)
  show ?thesis
  proof (intro conjI allI impI)
    fix bible_data k
    assume "process_txt_bible content translation = Inr bible_data"
    then have "bible_data = foldl store_verse [] (occurrences content)"
      unfolding e by (auto split: if_splits)
    then show "lookup_verse bible_data k =
            (let os = filter (\<lambda>oc. fst oc = k) (occurrences content) in
             if os = [] then None else Some (clean_bible_text (snd (last os))))"
      by (simp add: lookup_foldl lookup_verse_Nil Let_def)
  next
    assume "short_numbers content"
    then show "\<exists>bible_data. process_txt_bible content translation = Inr bible_data"
      unfolding e by simp
  qed
qed

theorem txt_last_write_wins_witness:
  "short_numbers ''John 3:16 first John 3:16 second''
   \<and> occurrences ''John 3:16 first John 3:16 second''
       = [((''John'', 3, 16), ''first''), ((''John'', 3, 16), ''second'')]
   \<and> (\<exists>bible_data. process_txt_bible ''John 3:16 first John 3:16 second'' ''KJV'' = Inr bible_data
        \<and> lookup_verse bible_data (''John'', 3, 16) = Some ''second'')"
proof -
  let ?c = "''John 3:16 first John 3:16 second''"
  have s: "short_numbers ?c" by code_simp
  have o: "occurrences ?c = [((''John'', 3, 16), ''first''), ((''John'', 3, 16), ''second'')]"
    by code_simp
  have cl: "clean_bible_text ''second'' = ''second''" by code_simp
  note t = txt_last_write_wins[of ?c "''KJV''"]
  from t s obtain bd where r: "process_txt_bible ?c ''KJV'' = Inr bd" by blast
  from t r have "lookup_verse bd (''John'', 3, 16) =
            (let os = filter (\<lambda>oc. fst oc = (''John'', 3, 16)) (occurrences ?c) in
             if os = [] then None else Some (clean_bible_text (snd (last os))))" by blast
  then have "lookup_verse bd (''John'', 3, 16) = Some ''second''"
    unfolding o by (simp add: cl)
  with r have "\<exists>bible_data. process_txt_bible ?c ''KJV'' = Inr bible_data
        \<and> lookup_verse bible_data (''John'', 3, 16) = Some ''second''" by blast
  with s o show ?thesis by (intro conjI)
qed

section \<open>Properties of the JSON parsers\<close>




end
